theory Spec2Isabelle
  imports Main "HOL-Library.Monad_Syntax"
begin

section \<open>The memory model\<close>

text \<open>
  The Go package has two struct types that point at one another. A value of type
  \<^verbatim>\<open>*List[T]\<close> is \<open>None\<close> (nil) or \<open>Some l\<close>, the address of the \<open>l\<close>-th list that was
  allocated. A value of type \<^verbatim>\<open>*Element[T]\<close> is \<open>None\<close> (nil), \<open>Some (Root l)\<close>, the
  address \<^verbatim>\<open>&l.root\<close> of the sentinel embedded in list \<open>l\<close>, or \<open>Some (Elem n)\<close>, the address
  of the \<open>n\<close>-th element that escaped to the heap in \<^verbatim>\<open>insertValueAfter\<close>.
\<close>

datatype eptr = Root nat | Elem nat

type_synonym lref = "nat option"
type_synonym eref = "eptr option"

record 'a Element =
  prev :: eref
  "next" :: eref
  list :: lref
  Value :: 'a

record 'a List =
  root :: "'a Element"
  size' :: int

text \<open>
  The heap: the allocated lists and elements, and the two allocation counters. Dereferencing
  nil panics in Go; every function below returns \<open>None\<close> for a panic. An address that was
  never allocated cannot be formed in Go; the model gives \<open>None\<close> for it as well.
\<close>

record 'a heap =
  lists :: "nat \<Rightarrow> 'a List option"
  elems :: "nat \<Rightarrow> 'a Element option"
  nlists :: nat
  nelems :: nat

definition empty_heap :: "'a heap" where
  "empty_heap = \<lparr>lists = (\<lambda>_. None), elems = (\<lambda>_. None), nlists = 0, nelems = 0\<rparr>"

definition getL :: "'a heap \<Rightarrow> lref \<Rightarrow> 'a List option" where
  "getL h l = (case l of None \<Rightarrow> None | Some k \<Rightarrow> lists h k)"

definition getE :: "'a heap \<Rightarrow> eref \<Rightarrow> 'a Element option" where
  "getE h p = (case p of None \<Rightarrow> None
     | Some (Root l) \<Rightarrow> map_option root (lists h l)
     | Some (Elem n) \<Rightarrow> elems h n)"

definition updL :: "'a heap \<Rightarrow> lref \<Rightarrow> ('a List \<Rightarrow> 'a List) \<Rightarrow> 'a heap option" where
  "updL h l f = (case l of None \<Rightarrow> None
     | Some k \<Rightarrow> (case lists h k of None \<Rightarrow> None
         | Some L \<Rightarrow> Some (h\<lparr>lists := (lists h)(k \<mapsto> f L)\<rparr>)))"

definition updE :: "'a heap \<Rightarrow> eref \<Rightarrow> ('a Element \<Rightarrow> 'a Element) \<Rightarrow> 'a heap option" where
  "updE h p f = (case p of None \<Rightarrow> None
     | Some (Root l) \<Rightarrow> updL h (Some l) (\<lambda>L. L\<lparr>root := f (root L)\<rparr>)
     | Some (Elem n) \<Rightarrow> (case elems h n of None \<Rightarrow> None
         | Some x \<Rightarrow> Some (h\<lparr>elems := (elems h)(n \<mapsto> f x)\<rparr>)))"


text \<open>
  A composite literal whose address is taken escapes to the heap: it gets the next free
  element address, \<open>Elem (nelems h)\<close>.
\<close>

definition alloc :: "'a heap \<Rightarrow> 'a Element \<Rightarrow> 'a heap" where
  "alloc h x = h\<lparr>elems := (elems h)(nelems h \<mapsto> x), nelems := Suc (nelems h)\<rparr>"

text \<open>
  A zero \<^verbatim>\<open>List[T]\<close> (\<^verbatim>\<open>new(List[T])\<close> or \<^verbatim>\<open>var l List[T]\<close>): every pointer nil, the
  size 0 and the sentinel's value the zero value of \<open>T\<close>. The result is the list's address.
\<close>

definition zeroElement :: "'a::zero Element" where
  "zeroElement = \<lparr>prev = None, next = None, list = None, Value = 0\<rparr>"

definition newList :: "'a::zero heap \<Rightarrow> lref \<times> 'a heap" where
  "newList h = (Some (nlists h),
     h\<lparr>lists := (lists h)(nlists h \<mapsto> \<lparr>root = zeroElement, size' = 0\<rparr>),
       nlists := Suc (nlists h)\<rparr>)"

section \<open>The operations of list.go\<close>

text \<open>Each function takes the heap first; one that writes returns the new heap.\<close>

definition Next :: "'a heap \<Rightarrow> eref \<Rightarrow> eref option" where
  "Next h e = do {
     x \<leftarrow> getE h e;
     if list x = None then Some None
     else if next x = map_option Root (list x) then Some None
     else Some (next x) }"

definition Prev :: "'a heap \<Rightarrow> eref \<Rightarrow> eref option" where
  "Prev h e = do {
     x \<leftarrow> getE h e;
     if list x = None then Some None
     else if prev x = map_option Root (list x) then Some None
     else Some (prev x) }"

definition Back :: "'a heap \<Rightarrow> lref \<Rightarrow> eref option" where
  "Back h l = do {
     L \<leftarrow> getL h l;
     if size' L = 0 then Some None else Some (prev (root L)) }"

definition Front :: "'a heap \<Rightarrow> lref \<Rightarrow> eref option" where
  "Front h l = do {
     L \<leftarrow> getL h l;
     if size' L = 0 then Some None else Some (next (root L)) }"

definition Init :: "'a heap \<Rightarrow> lref \<Rightarrow> 'a heap option" where
  "Init h l = do {
     h1 \<leftarrow> updL h l (\<lambda>L. L\<lparr>root := (root L)\<lparr>prev := map_option Root l\<rparr>\<rparr>);
     h2 \<leftarrow> updL h1 l (\<lambda>L. L\<lparr>root := (root L)\<lparr>next := map_option Root l\<rparr>\<rparr>);
     updL h2 l (\<lambda>L. L\<lparr>size' := 0\<rparr>) }"

definition New :: "'a::zero heap \<Rightarrow> (lref \<times> 'a heap) option" where
  "New h = (case newList h of (l, h1) \<Rightarrow> do { h2 \<leftarrow> Init h1 l; Some (l, h2) })"

definition insertValueAfter ::
    "'a heap \<Rightarrow> lref \<Rightarrow> 'a \<Rightarrow> eref \<Rightarrow> (eref \<times> 'a heap) option" where
  "insertValueAfter h l v mark = do {
     m \<leftarrow> getE h mark;
     let e = Some (Elem (nelems h));
     let h1 = alloc h \<lparr>prev = mark, next = next m, list = l, Value = v\<rparr>;
     m1 \<leftarrow> getE h1 mark;
     h2 \<leftarrow> updE h1 (next m1) (\<lambda>x. x\<lparr>prev := e\<rparr>);
     h3 \<leftarrow> updE h2 mark (\<lambda>x. x\<lparr>next := e\<rparr>);
     h4 \<leftarrow> updL h3 l (\<lambda>L. L\<lparr>size' := size' L + 1\<rparr>);
     Some (e, h4) }"

definition InsertAfter ::
    "'a heap \<Rightarrow> lref \<Rightarrow> 'a \<Rightarrow> eref \<Rightarrow> (eref \<times> 'a heap) option" where
  "InsertAfter h l v mark = do {
     m \<leftarrow> getE h mark;
     if list m \<noteq> l then Some (None, h)
     else insertValueAfter h l v mark }"

definition InsertBefore ::
    "'a heap \<Rightarrow> lref \<Rightarrow> 'a \<Rightarrow> eref \<Rightarrow> (eref \<times> 'a heap) option" where
  "InsertBefore h l v mark = do {
     m \<leftarrow> getE h mark;
     if list m \<noteq> l then Some (None, h)
     else insertValueAfter h l v (prev m) }"

definition Len :: "'a heap \<Rightarrow> lref \<Rightarrow> int option" where
  "Len h l = map_option size' (getL h l)"

definition moveAfter :: "'a heap \<Rightarrow> lref \<Rightarrow> eref \<Rightarrow> eref \<Rightarrow> 'a heap option" where
  "moveAfter h l e mark =
     (if e = mark then Some h
      else do {
        x \<leftarrow> getE h e;
        h1 \<leftarrow> updE h (prev x) (\<lambda>y. y\<lparr>next := next x\<rparr>);
        x1 \<leftarrow> getE h1 e;
        h2 \<leftarrow> updE h1 (next x1) (\<lambda>y. y\<lparr>prev := prev x1\<rparr>);
        h3 \<leftarrow> updE h2 e (\<lambda>y. y\<lparr>prev := mark\<rparr>);
        m3 \<leftarrow> getE h3 mark;
        h4 \<leftarrow> updE h3 e (\<lambda>y. y\<lparr>next := next m3\<rparr>);
        m4 \<leftarrow> getE h4 mark;
        h5 \<leftarrow> updE h4 (next m4) (\<lambda>y. y\<lparr>prev := e\<rparr>);
        updE h5 mark (\<lambda>y. y\<lparr>next := e\<rparr>) })"

definition MoveAfter :: "'a heap \<Rightarrow> lref \<Rightarrow> eref \<Rightarrow> eref \<Rightarrow> 'a heap option" where
  "MoveAfter h l e mark = do {
     x \<leftarrow> getE h e;
     if list x \<noteq> l then Some h
     else do {
       m \<leftarrow> getE h mark;
       if list m \<noteq> l \<or> e = mark then Some h
       else moveAfter h l e mark } }"

definition MoveBefore :: "'a heap \<Rightarrow> lref \<Rightarrow> eref \<Rightarrow> eref \<Rightarrow> 'a heap option" where
  "MoveBefore h l e mark = do {
     x \<leftarrow> getE h e;
     if list x \<noteq> l then Some h
     else do {
       m \<leftarrow> getE h mark;
       if list m \<noteq> l \<or> e = mark then Some h
       else moveAfter h l e (prev m) } }"

definition MoveToBack :: "'a heap \<Rightarrow> lref \<Rightarrow> eref \<Rightarrow> 'a heap option" where
  "MoveToBack h l e = do {
     x \<leftarrow> getE h e;
     if list x \<noteq> l then Some h
     else do {
       L \<leftarrow> getL h l;
       if prev (root L) = e then Some h
       else moveAfter h l e (prev (root L)) } }"

definition MoveToFront :: "'a heap \<Rightarrow> lref \<Rightarrow> eref \<Rightarrow> 'a heap option" where
  "MoveToFront h l e = do {
     x \<leftarrow> getE h e;
     if list x \<noteq> l then Some h
     else do {
       L \<leftarrow> getL h l;
       if next (root L) = e then Some h
       else moveAfter h l e (map_option Root l) } }"

definition lazyInit :: "'a heap \<Rightarrow> lref \<Rightarrow> 'a heap option" where
  "lazyInit h l = do {
     L \<leftarrow> getL h l;
     if next (root L) = None then Init h l else Some h }"

definition PushBack :: "'a heap \<Rightarrow> lref \<Rightarrow> 'a \<Rightarrow> (eref \<times> 'a heap) option" where
  "PushBack h l v = do {
     h1 \<leftarrow> lazyInit h l;
     L \<leftarrow> getL h1 l;
     insertValueAfter h1 l v (prev (root L)) }"

definition PushFront :: "'a heap \<Rightarrow> lref \<Rightarrow> 'a \<Rightarrow> (eref \<times> 'a heap) option" where
  "PushFront h l v = do {
     h1 \<leftarrow> lazyInit h l;
     insertValueAfter h1 l v (map_option Root l) }"

text \<open>
  The two copying loops. The counter \<open>i\<close> starts at \<^verbatim>\<open>other.Len()\<close>, read once before the
  first iteration, and the loop runs while \<open>i > 0\<close>.
\<close>

function pushBackLoop :: "'a heap \<Rightarrow> lref \<Rightarrow> eref \<Rightarrow> int \<Rightarrow> 'a heap option" where
  "pushBackLoop h l e i =
     (if i > 0 then do {
        x \<leftarrow> getE h e;
        L \<leftarrow> getL h l;
        (r, h1) \<leftarrow> insertValueAfter h l (Value x) (prev (root L));
        e1 \<leftarrow> Next h1 e;
        pushBackLoop h1 l e1 (i - 1) }
      else Some h)"
  by pat_completeness auto
termination
  by (relation "measure (\<lambda>(h, l, e, i). nat i)") auto

function pushFrontLoop :: "'a heap \<Rightarrow> lref \<Rightarrow> eref \<Rightarrow> int \<Rightarrow> 'a heap option" where
  "pushFrontLoop h l e i =
     (if i > 0 then do {
        x \<leftarrow> getE h e;
        (r, h1) \<leftarrow> insertValueAfter h l (Value x) (map_option Root l);
        e1 \<leftarrow> Prev h1 e;
        pushFrontLoop h1 l e1 (i - 1) }
      else Some h)"
  by pat_completeness auto
termination
  by (relation "measure (\<lambda>(h, l, e, i). nat i)") auto

declare pushBackLoop.simps [simp del] pushFrontLoop.simps [simp del]

definition PushBackList :: "'a heap \<Rightarrow> lref \<Rightarrow> lref \<Rightarrow> 'a heap option" where
  "PushBackList h l other = do {
     h1 \<leftarrow> lazyInit h l;
     e \<leftarrow> Front h1 other;
     n \<leftarrow> Len h1 other;
     pushBackLoop h1 l e n }"

definition PushFrontList :: "'a heap \<Rightarrow> lref \<Rightarrow> lref \<Rightarrow> 'a heap option" where
  "PushFrontList h l other = do {
     h1 \<leftarrow> lazyInit h l;
     e \<leftarrow> Back h1 other;
     n \<leftarrow> Len h1 other;
     pushFrontLoop h1 l e n }"

definition Remove :: "'a heap \<Rightarrow> lref \<Rightarrow> eref \<Rightarrow> ('a \<times> 'a heap) option" where
  "Remove h l e = do {
     x \<leftarrow> getE h e;
     if list x \<noteq> l then Some (Value x, h)
     else do {
       h1 \<leftarrow> updE h (prev x) (\<lambda>y. y\<lparr>next := next x\<rparr>);
       x1 \<leftarrow> getE h1 e;
       h2 \<leftarrow> updE h1 (next x1) (\<lambda>y. y\<lparr>prev := prev x1\<rparr>);
       h3 \<leftarrow> updE h2 e (\<lambda>y. y\<lparr>prev := None\<rparr>);
       h4 \<leftarrow> updE h3 e (\<lambda>y. y\<lparr>next := None\<rparr>);
       h5 \<leftarrow> updE h4 e (\<lambda>y. y\<lparr>list := None\<rparr>);
       h6 \<leftarrow> updL h5 l (\<lambda>L. L\<lparr>size' := size' L - 1\<rparr>);
       x6 \<leftarrow> getE h6 e;
       Some (Value x6, h6) } }"


section \<open>Client programs\<close>

text \<open>
  A client of the package is a sequence of calls of the public functions. \<open>CallNew\<close> is
  \<^verbatim>\<open>l := New[T]()\<close> and \<open>CallZero\<close> is \<^verbatim>\<open>l := new(List[T])\<close>, a zero list that no function of
  the package has touched. The results of the calls are dropped: the arguments of later
  calls are arbitrary pointers already.
\<close>

datatype 'a call =
    CallNew
  | CallZero
  | CallInit lref
  | CallLen lref
  | CallFront lref
  | CallBack lref
  | CallNext eref
  | CallPrev eref
  | CallPushBack lref 'a
  | CallPushFront lref 'a
  | CallInsertAfter lref 'a eref
  | CallInsertBefore lref 'a eref
  | CallRemove lref eref
  | CallMoveToFront lref eref
  | CallMoveToBack lref eref
  | CallMoveBefore lref eref eref
  | CallMoveAfter lref eref eref
  | CallPushBackList lref lref
  | CallPushFrontList lref lref

fun exec :: "'a::zero heap \<Rightarrow> 'a call \<Rightarrow> 'a heap option" where
  "exec h CallNew = map_option snd (New h)"
| "exec h CallZero = Some (snd (newList h))"
| "exec h (CallInit l) = Init h l"
| "exec h (CallLen l) = map_option (\<lambda>_. h) (Len h l)"
| "exec h (CallFront l) = map_option (\<lambda>_. h) (Front h l)"
| "exec h (CallBack l) = map_option (\<lambda>_. h) (Back h l)"
| "exec h (CallNext e) = map_option (\<lambda>_. h) (Next h e)"
| "exec h (CallPrev e) = map_option (\<lambda>_. h) (Prev h e)"
| "exec h (CallPushBack l v) = map_option snd (PushBack h l v)"
| "exec h (CallPushFront l v) = map_option snd (PushFront h l v)"
| "exec h (CallInsertAfter l v mark) = map_option snd (InsertAfter h l v mark)"
| "exec h (CallInsertBefore l v mark) = map_option snd (InsertBefore h l v mark)"
| "exec h (CallRemove l e) = map_option snd (Remove h l e)"
| "exec h (CallMoveToFront l e) = MoveToFront h l e"
| "exec h (CallMoveToBack l e) = MoveToBack h l e"
| "exec h (CallMoveBefore l e mark) = MoveBefore h l e mark"
| "exec h (CallMoveAfter l e mark) = MoveAfter h l e mark"
| "exec h (CallPushBackList l other) = PushBackList h l other"
| "exec h (CallPushFrontList l other) = PushFrontList h l other"

fun run :: "'a::zero heap \<Rightarrow> 'a call list \<Rightarrow> 'a heap option" where
  "run h [] = Some h"
| "run h (c # cs) = (case exec h c of None \<Rightarrow> None | Some h1 \<Rightarrow> run h1 cs)"

text \<open>
  Walking a list as a client does: \<^verbatim>\<open>for e := l.Front(); e != nil; e = e.Next()\<close>, and
  backwards with \<^verbatim>\<open>Back\<close> and \<^verbatim>\<open>Prev\<close>. On a damaged ring the Go loop may run forever, so
  the walk takes fuel: the result is \<open>None\<close> when a call panics or the fuel runs out before
  the walk reaches nil.
\<close>

fun walkNext :: "nat \<Rightarrow> 'a heap \<Rightarrow> eref \<Rightarrow> eptr list option" where
  "walkNext k h None = Some []"
| "walkNext 0 h (Some p) = None"
| "walkNext (Suc k) h (Some p) = do {
     e1 \<leftarrow> Next h (Some p);
     ps \<leftarrow> walkNext k h e1;
     Some (p # ps) }"

fun walkPrev :: "nat \<Rightarrow> 'a heap \<Rightarrow> eref \<Rightarrow> eptr list option" where
  "walkPrev k h None = Some []"
| "walkPrev 0 h (Some p) = None"
| "walkPrev (Suc k) h (Some p) = do {
     e1 \<leftarrow> Prev h (Some p);
     ps \<leftarrow> walkPrev k h e1;
     Some (p # ps) }"

definition forward :: "nat \<Rightarrow> 'a heap \<Rightarrow> lref \<Rightarrow> eptr list option" where
  "forward k h l = do { e \<leftarrow> Front h l; walkNext k h e }"

definition backward :: "nat \<Rightarrow> 'a heap \<Rightarrow> lref \<Rightarrow> eptr list option" where
  "backward k h l = do { e \<leftarrow> Back h l; walkPrev k h e }"

text \<open>Reading \<^verbatim>\<open>e.Value\<close> for every pointer of a walk.\<close>

fun valuesOf :: "'a heap \<Rightarrow> eptr list \<Rightarrow> 'a list option" where
  "valuesOf h [] = Some []"
| "valuesOf h (p # ps) = do {
     x \<leftarrow> getE h (Some p);
     vs \<leftarrow> valuesOf h ps;
     Some (Value x # vs) }"

definition forwardValues :: "nat \<Rightarrow> 'a heap \<Rightarrow> lref \<Rightarrow> 'a list option" where
  "forwardValues k h l = do { ps \<leftarrow> forward k h l; valuesOf h ps }"

definition backwardValues :: "nat \<Rightarrow> 'a heap \<Rightarrow> lref \<Rightarrow> 'a list option" where
  "backwardValues k h l = do { ps \<leftarrow> backward k h l; valuesOf h ps }"

section \<open>Views of the heap and the ring invariant\<close>

text \<open>
  The heap seen one field at a time: \<open>nexts h p\<close> is \<open>None\<close> when nothing is allocated at \<open>p\<close>
  and \<open>Some\<close> of the field \<^verbatim>\<open>p.next\<close> otherwise; likewise for the other fields and for
  the \<^verbatim>\<open>size\<close> of a list.
\<close>

definition nexts :: "'a heap \<Rightarrow> eptr \<Rightarrow> eref option" where
  "nexts h p = map_option next (getE h (Some p))"

definition prevs :: "'a heap \<Rightarrow> eptr \<Rightarrow> eref option" where
  "prevs h p = map_option prev (getE h (Some p))"

definition owners :: "'a heap \<Rightarrow> eptr \<Rightarrow> lref option" where
  "owners h p = map_option list (getE h (Some p))"

definition vals :: "'a heap \<Rightarrow> eptr \<Rightarrow> 'a option" where
  "vals h p = map_option Value (getE h (Some p))"

definition sizes :: "'a heap \<Rightarrow> nat \<Rightarrow> int option" where
  "sizes h k = Len h (Some k)"

text \<open>
  \<open>lnk N P ps\<close>: along the list \<open>ps\<close> of addresses every \<^verbatim>\<open>next\<close> pointer leads to the
  following address and every \<^verbatim>\<open>prev\<close> pointer back.
\<close>

fun lnk :: "(eptr \<Rightarrow> eref option) \<Rightarrow> (eptr \<Rightarrow> eref option) \<Rightarrow> eptr list \<Rightarrow> bool" where
  "lnk N P (p # q # ps) = (N p = Some (Some q) \<and> P q = Some (Some p) \<and> lnk N P (q # ps))"
| "lnk N P ps = True"

text \<open>
  \<open>ring h l xs\<close>: list \<open>l\<close> holds exactly the elements at the addresses \<open>xs\<close>, front to back.
  They form a ring with the sentinel, each has \<open>l\<close> as its back-reference, and
  \<^verbatim>\<open>l.size\<close> is their number. \<open>zeroList h l\<close>: the list is still the zero value.
\<close>

definition ring :: "'a heap \<Rightarrow> nat \<Rightarrow> nat list \<Rightarrow> bool" where
  "ring h l xs \<longleftrightarrow> distinct xs
     \<and> lnk (nexts h) (prevs h) (Root l # map Elem xs @ [Root l])
     \<and> (\<forall>n\<in>set xs. owners h (Elem n) = Some (Some l))
     \<and> sizes h l = Some (int (length xs))"

definition zeroList :: "'a heap \<Rightarrow> nat \<Rightarrow> bool" where
  "zeroList h l \<longleftrightarrow> nexts h (Root l) = Some None \<and> prevs h (Root l) = Some None \<and> sizes h l = Some 0"

text \<open>
  \<open>allocated h\<close>: the addresses in use are exactly those below the allocation counters.
  \<open>wf h\<close>: moreover every list is a zero list or a ring, and no sentinel has a
  back-reference. Elements that no ring holds are not constrained.
\<close>

definition allocated :: "'a heap \<Rightarrow> bool" where
  "allocated h \<longleftrightarrow> (\<forall>n. nexts h (Elem n) = None \<longleftrightarrow> nelems h \<le> n)
     \<and> (\<forall>l. nexts h (Root l) = None \<longleftrightarrow> nlists h \<le> l)"

definition wf :: "'a heap \<Rightarrow> bool" where
  "wf h \<longleftrightarrow> allocated h
     \<and> (\<forall>l<nlists h. owners h (Root l) = Some None \<and> (zeroList h l \<or> (\<exists>xs. ring h l xs)))"

definition headPtr :: "nat list \<Rightarrow> eref" where
  "headPtr ys = (case ys of [] \<Rightarrow> None | y # _ \<Rightarrow> Some (Elem y))"

definition lastPtr :: "nat list \<Rightarrow> eref" where
  "lastPtr ys = (if ys = [] then None else Some (Elem (last ys)))"

definition lst :: "'a heap \<Rightarrow> nat \<Rightarrow> nat list \<Rightarrow> bool" where
  "lst h l xs \<longleftrightarrow> ring h l xs \<or> (xs = [] \<and> zeroList h l)"

text \<open>
  \<open>confined h l h'\<close>: from \<open>h\<close> to \<open>h'\<close> nothing has changed outside list \<open>l\<close>: the
  sentinels and sizes of the other lists and the elements that existed in \<open>h\<close> with another
  back-reference are as they were.
\<close>

definition confined :: "'a heap \<Rightarrow> nat \<Rightarrow> 'a heap \<Rightarrow> bool" where
  "confined h l h' \<longleftrightarrow> nlists h \<le> nlists h' \<and> (\<forall>k<nlists h'. k = l \<or> k < nlists h)
     \<and> nelems h \<le> nelems h'
     \<and> (\<forall>k. k \<noteq> l \<longrightarrow> sizes h' k = sizes h k)
     \<and> (\<forall>k. k \<noteq> l \<longrightarrow> nexts h' (Root k) = nexts h (Root k) \<and> prevs h' (Root k) = prevs h (Root k)
            \<and> owners h' (Root k) = owners h (Root k))
     \<and> (\<forall>n. n < nelems h \<and> owners h (Elem n) \<noteq> Some (Some l) \<longrightarrow>
            nexts h' (Elem n) = nexts h (Elem n) \<and> prevs h' (Elem n) = prevs h (Elem n)
            \<and> owners h' (Elem n) = owners h (Elem n))"

section \<open>Admissible client programs\<close>

text \<open>
  The arguments a client can pass without misusing the package. A list argument is the
  address of a list that exists. An element argument is a handle: the address of an element
  (never nil, never a sentinel) that is not stale, that is, when its back-reference names a
  list, walking that list with \<^verbatim>\<open>Front\<close> and \<^verbatim>\<open>Next\<close> still reaches it. \<^verbatim>\<open>Init\<close> on a
  populated list makes the handles of its elements stale: their back-references are not
  cleared.
\<close>

definition isList :: "'a heap \<Rightarrow> lref \<Rightarrow> bool" where
  "isList h l \<longleftrightarrow> getL h l \<noteq> None"

definition live :: "'a heap \<Rightarrow> eref \<Rightarrow> bool" where
  "live h e = (case e of
       Some (Elem n) \<Rightarrow>
         (case getE h e of
            None \<Rightarrow> False
          | Some x \<Rightarrow>
              (case list x of
                 None \<Rightarrow> True
               | Some l \<Rightarrow>
                   (case forward (nelems h) h (Some l) of
                      None \<Rightarrow> False
                    | Some ps \<Rightarrow> Elem n \<in> set ps)))
     | _ \<Rightarrow> False)"

fun admissible :: "'a heap \<Rightarrow> 'a call \<Rightarrow> bool" where
  "admissible h CallNew = True"
| "admissible h CallZero = True"
| "admissible h (CallInit l) = isList h l"
| "admissible h (CallLen l) = isList h l"
| "admissible h (CallFront l) = isList h l"
| "admissible h (CallBack l) = isList h l"
| "admissible h (CallNext e) = live h e"
| "admissible h (CallPrev e) = live h e"
| "admissible h (CallPushBack l v) = isList h l"
| "admissible h (CallPushFront l v) = isList h l"
| "admissible h (CallInsertAfter l v mark) = (isList h l \<and> live h mark)"
| "admissible h (CallInsertBefore l v mark) = (isList h l \<and> live h mark)"
| "admissible h (CallRemove l e) = (isList h l \<and> live h e)"
| "admissible h (CallMoveToFront l e) = (isList h l \<and> live h e)"
| "admissible h (CallMoveToBack l e) = (isList h l \<and> live h e)"
| "admissible h (CallMoveBefore l e mark) = (isList h l \<and> live h e \<and> live h mark)"
| "admissible h (CallMoveAfter l e mark) = (isList h l \<and> live h e \<and> live h mark)"
| "admissible h (CallPushBackList l other) = (isList h l \<and> isList h other)"
| "admissible h (CallPushFrontList l other) = (isList h l \<and> isList h other)"

fun admissibleRun :: "'a::zero heap \<Rightarrow> 'a call list \<Rightarrow> bool" where
  "admissibleRun h [] = True"
| "admissibleRun h (c # cs) =
     (admissible h c \<and> (case exec h c of None \<Rightarrow> True | Some h1 \<Rightarrow> admissibleRun h1 cs))"

section \<open>Lemmas about the heap and about linked segments\<close>

lemmas view_defs = nexts_def prevs_def owners_def vals_def sizes_def

lemma getE_cases:
  "getE h (Some p) = (case p of Root l \<Rightarrow> map_option root (lists h l) | Elem n \<Rightarrow> elems h n)"
  by (simp add: getE_def)

lemma step_next:
  assumes "nexts h p \<noteq> None"
  shows "\<exists>h'. updE h (Some p) (\<lambda>y. y\<lparr>next := v\<rparr>) = Some h'
     \<and> nexts h' = (nexts h)(p \<mapsto> v) \<and> prevs h' = prevs h \<and> owners h' = owners h
     \<and> vals h' = vals h \<and> sizes h' = sizes h \<and> nelems h' = nelems h \<and> nlists h' = nlists h"
  using assms
  by (cases p) (auto simp: view_defs updE_def updL_def getE_def getL_def Len_def fun_eq_iff split: option.splits eptr.splits)

lemma step_prev:
  assumes "nexts h p \<noteq> None"
  shows "\<exists>h'. updE h (Some p) (\<lambda>y. y\<lparr>prev := v\<rparr>) = Some h'
     \<and> nexts h' = nexts h \<and> prevs h' = (prevs h)(p \<mapsto> v) \<and> owners h' = owners h
     \<and> vals h' = vals h \<and> sizes h' = sizes h \<and> nelems h' = nelems h \<and> nlists h' = nlists h"
  using assms
  by (cases p) (auto simp: view_defs updE_def updL_def getE_def getL_def Len_def fun_eq_iff split: option.splits eptr.splits)

lemma step_list:
  assumes "nexts h p \<noteq> None"
  shows "\<exists>h'. updE h (Some p) (\<lambda>y. y\<lparr>list := v\<rparr>) = Some h'
     \<and> nexts h' = nexts h \<and> prevs h' = prevs h \<and> owners h' = (owners h)(p \<mapsto> v)
     \<and> vals h' = vals h \<and> sizes h' = sizes h \<and> nelems h' = nelems h \<and> nlists h' = nlists h"
  using assms
  by (cases p) (auto simp: view_defs updE_def updL_def getE_def getL_def Len_def fun_eq_iff split: option.splits eptr.splits)

lemma step_size:
  assumes "sizes h l = Some s"
  shows "\<exists>h'. updL h (Some l) (\<lambda>L. L\<lparr>size' := g (size' L)\<rparr>) = Some h'
     \<and> nexts h' = nexts h \<and> prevs h' = prevs h \<and> owners h' = owners h
     \<and> vals h' = vals h \<and> sizes h' = (sizes h)(l \<mapsto> g s) \<and> nelems h' = nelems h \<and> nlists h' = nlists h"
  using assms
  by (auto simp: view_defs updE_def updL_def getE_def getL_def Len_def fun_eq_iff split: option.splits eptr.splits)

lemma lnk_append:
  "lnk N P (ps @ qs) \<longleftrightarrow> lnk N P ps \<and> lnk N P qs \<and>
     (ps \<noteq> [] \<and> qs \<noteq> [] \<longrightarrow> N (last ps) = Some (Some (hd qs)) \<and> P (hd qs) = Some (Some (last ps)))"
proof (induction ps)
  case Nil
  show ?case by simp
next
  case (Cons p ps)
  show ?case
  proof (cases ps)
    case Nil
    then show ?thesis by (cases qs) auto
  next
    case (Cons a as)
    then show ?thesis using Cons.IH by auto
  qed
qed

lemma lnk_cong:
  "(\<And>p. p \<in> set (butlast ps) \<Longrightarrow> N' p = N p) \<Longrightarrow> (\<And>p. p \<in> set (tl ps) \<Longrightarrow> P' p = P p)
    \<Longrightarrow> lnk N' P' ps = lnk N P ps"
proof (induction N P ps rule: lnk.induct)
  case (1 N P p q ps)
  then show ?case by auto
qed simp_all

lemma lnk_insert:
  assumes "lnk N P (pre @ post)" "pre \<noteq> []" "post \<noteq> []"
    and "distinct pre" "distinct post" "set (butlast post) \<inter> set pre = {}" "set (tl pre) \<inter> set post = {}"
    and "e \<notin> set pre" "e \<notin> set post"
    and "N' = N(e \<mapsto> Some (hd post), last pre \<mapsto> Some e)"
    and "P' = P(e \<mapsto> Some (last pre), hd post \<mapsto> Some e)"
  shows "lnk N' P' (pre @ e # post)"
proof -
  have m: "last pre \<in> set pre" and q: "hd post \<in> set post" using assms by auto
  have m1: "last pre \<notin> set (butlast pre)" using assms(2,4)
    by (metis append_butlast_last_id distinct_butlast not_distinct_conv_prefix)
  have q1: "hd post \<notin> set (tl post)" using assms(3,5)
    by (metis distinct.simps(2) list.collapse)
  have m2: "last pre \<notin> set (butlast post)" using m assms(6) by auto
  have q2: "hd post \<notin> set (tl pre)" using q assms(7) by auto
  have e1: "e \<notin> set (butlast pre)" "e \<notin> set (tl pre)" "e \<notin> set (butlast post)" "e \<notin> set (tl post)"
    using assms(2,3,8,9) by (auto dest: in_set_butlastD list.set_sel(2))
  have "lnk N' P' pre = lnk N P pre"
    by (rule lnk_cong) (use m1 q2 e1 assms(10,11) in auto)
  moreover have "lnk N' P' post = lnk N P post"
    by (rule lnk_cong) (use m2 q1 e1 assms(10,11) in auto)
  moreover have "lnk N' P' (e # post) = (N' e = Some (Some (hd post)) \<and> P' (hd post) = Some (Some e) \<and> lnk N' P' post)"
    using assms(3) by (cases post) auto
  moreover have "e \<noteq> last pre" "e \<noteq> hd post" using m q assms(8,9) by auto
  ultimately show ?thesis
    using assms(1,2,3) by (auto simp: lnk_append assms(10,11))
qed

lemma lnk_unlink:
  assumes "lnk N P (pre @ e # post)" "pre \<noteq> []" "post \<noteq> []"
    and "distinct pre" "distinct post" "set (butlast post) \<inter> set pre = {}" "set (tl pre) \<inter> set post = {}"
    and "e \<notin> set pre" "e \<notin> set post"
    and "N' = N(last pre \<mapsto> Some (hd post))"
    and "P' = P(hd post \<mapsto> Some (last pre))"
  shows "lnk N' P' (pre @ post)"
proof -
  have m: "last pre \<in> set pre" and q: "hd post \<in> set post" using assms by auto
  have m1: "last pre \<notin> set (butlast pre)" using assms(2,4)
    by (metis append_butlast_last_id distinct_butlast not_distinct_conv_prefix)
  have q1: "hd post \<notin> set (tl post)" using assms(3,5)
    by (metis distinct.simps(2) list.collapse)
  have m2: "last pre \<notin> set (butlast post)" using m assms(6) by auto
  have q2: "hd post \<notin> set (tl pre)" using q assms(7) by auto
  have "lnk N' P' pre = lnk N P pre"
    by (rule lnk_cong) (use m1 q2 assms(10,11) in auto)
  moreover have "lnk N' P' post = lnk N P post"
    by (rule lnk_cong) (use m2 q1 assms(10,11) in auto)
  moreover have "lnk N P (e # post) \<Longrightarrow> lnk N P post"
    using assms(3) by (cases post) auto
  ultimately show ?thesis
    using assms(1,2,3) by (auto simp: lnk_append assms(10,11))
qed

lemma lnk_mid:
  assumes "lnk N P (pre @ e # post)" "pre \<noteq> []" "post \<noteq> []"
  shows "P e = Some (Some (last pre)) \<and> N e = Some (Some (hd post))"
  using assms by (cases post) (auto simp: lnk_append)

lemma view_None:
  "prevs h p = None \<longleftrightarrow> nexts h p = None" "owners h p = None \<longleftrightarrow> nexts h p = None"
  "vals h p = None \<longleftrightarrow> nexts h p = None" "getE h (Some p) = None \<longleftrightarrow> nexts h p = None"
  by (simp_all add: view_defs)

lemma sizes_None: "sizes h l = None \<longleftrightarrow> nexts h (Root l) = None"
  by (simp add: view_defs Len_def getL_def getE_def)

lemma getE_views:
  "getE h (Some p) = Some x \<Longrightarrow>
     nexts h p = Some (next x) \<and> prevs h p = Some (prev x) \<and> owners h p = Some (list x) \<and> vals h p = Some (Value x)"
  by (simp add: view_defs)

lemma nexts_getE: "nexts h p = Some nx \<Longrightarrow> \<exists>x. getE h (Some p) = Some x \<and> next x = nx"
  by (auto simp: view_defs)

lemma step_alloc:
  "nexts (alloc h x) = (nexts h)(Elem (nelems h) \<mapsto> next x)"
  "prevs (alloc h x) = (prevs h)(Elem (nelems h) \<mapsto> prev x)"
  "owners (alloc h x) = (owners h)(Elem (nelems h) \<mapsto> list x)"
  "vals (alloc h x) = (vals h)(Elem (nelems h) \<mapsto> Value x)"
  "sizes (alloc h x) = sizes h" "nelems (alloc h x) = Suc (nelems h)" "nlists (alloc h x) = nlists h"
  by (auto simp: alloc_def view_defs getE_def Len_def getL_def fun_eq_iff split: eptr.splits)

lemma ring_split:
  "Root l # map Elem (A @ B) @ [Root l] = (Root l # map Elem A) @ (map Elem B @ [Root l])"
  by simp

lemma lnk_cells:
  "lnk N P (ps @ [r]) \<Longrightarrow> p \<in> set ps \<Longrightarrow> N p \<noteq> None"
proof (induction ps)
  case Nil
  then show ?case by simp
next
  case (Cons a ps)
  then show ?case by (cases ps) auto
qed

lemma ring_cells_alloc:
  assumes "ring h l xs" "p \<in> set (Root l # map Elem xs)"
  shows "nexts h p \<noteq> None"
proof -
  have "lnk (nexts h) (prevs h) ((Root l # map Elem xs) @ [Root l])"
    using assms(1) by (simp add: ring_def)
  from lnk_cells[OF this assms(2)] show ?thesis .
qed

lemma ring_lnk:
  "ring h l (A @ B) \<Longrightarrow> lnk (nexts h) (prevs h) ((Root l # map Elem A) @ (map Elem B @ [Root l]))"
  by (simp add: ring_def)

lemma ring_parts:
  assumes "ring h l (A @ B)"
  shows "distinct (Root l # map Elem A)" "distinct (map Elem B @ [Root l])"
    "set (butlast (map Elem B @ [Root l])) \<inter> set (Root l # map Elem A) = {}"
    "set (tl (Root l # map Elem A)) \<inter> set (map Elem B @ [Root l]) = {}"
proof -
  have d: "distinct (A @ B)" using assms by (simp add: ring_def)
  show "distinct (Root l # map Elem A)" using d by (auto simp: distinct_map inj_on_def)
  show "distinct (map Elem B @ [Root l])" using d by (auto simp: distinct_map inj_on_def)
  show "set (butlast (map Elem B @ [Root l])) \<inter> set (Root l # map Elem A) = {}"
    using d by (auto simp: butlast_append)
  show "set (tl (Root l # map Elem A)) \<inter> set (map Elem B @ [Root l]) = {}"
    using d by auto
qed

lemma insertValueAfter_ring:
  assumes fr: "nelems h \<notin> set (A @ B)" and r: "ring h l (A @ B)"
    and m: "m = last (Root l # map Elem A)" and q: "q = hd (map Elem B @ [Root l])"
  shows "\<exists>h'. insertValueAfter h (Some l) v (Some m) = Some (Some (Elem (nelems h)), h')
     \<and> ring h' l (A @ nelems h # B)
     \<and> nexts h' = (nexts h)(Elem (nelems h) \<mapsto> Some q, m \<mapsto> Some (Elem (nelems h)))
     \<and> prevs h' = (prevs h)(Elem (nelems h) \<mapsto> Some m, q \<mapsto> Some (Elem (nelems h)))
     \<and> owners h' = (owners h)(Elem (nelems h) \<mapsto> Some l)
     \<and> vals h' = (vals h)(Elem (nelems h) \<mapsto> v)
     \<and> sizes h' = (sizes h)(l \<mapsto> int (length (A @ B)) + 1)
     \<and> nelems h' = Suc (nelems h) \<and> nlists h' = nlists h"
proof -
  let ?n = "nelems h" let ?e = "Elem (nelems h)"
  let ?pre = "Root l # map Elem A" let ?post = "map Elem B @ [Root l]"
  have lk: "lnk (nexts h) (prevs h) (?pre @ ?post)"
    using ring_lnk[OF r] .
  have mq: "nexts h m = Some (Some q)" "prevs h q = Some (Some m)"
    using lk unfolding lnk_append m q by simp_all
  have cells: "?e \<notin> set (Root l # map Elem (A @ B))" using fr by auto
  have e1: "?e \<notin> set ?pre" "?e \<notin> set ?post" using cells by auto
  have "m \<in> set ?pre" unfolding m by (rule last_in_set) simp
  then have ne1: "m \<noteq> ?e" using e1 by auto
  have "q \<in> set ?post" unfolding q by (rule hd_in_set) simp
  then have ne2: "q \<noteq> ?e" using e1 by auto
  have "prevs h q \<noteq> None" using mq(2) by simp
  then have qa: "nexts h q \<noteq> None" by (simp add: view_None)
  obtain x where x: "getE h (Some m) = Some x" "next x = Some q"
    using nexts_getE[OF mq(1)] by auto
  define h1 where "h1 = alloc h \<lparr>prev = Some m, next = Some q, list = Some l, Value = v\<rparr>"
  have x1: "getE h1 (Some m) = Some x"
    using x(1) ne1 by (cases m) (simp_all add: h1_def alloc_def getE_def)
  have v1: "nexts h1 = (nexts h)(?e \<mapsto> Some q)" "prevs h1 = (prevs h)(?e \<mapsto> Some m)"
    "owners h1 = (owners h)(?e \<mapsto> Some l)" "vals h1 = (vals h)(?e \<mapsto> v)"
    "sizes h1 = sizes h" "nelems h1 = Suc ?n" "nlists h1 = nlists h"
    unfolding h1_def by (simp_all add: step_alloc)
  have "nexts h1 q \<noteq> None" using qa ne2 by (simp add: v1)
  from step_prev[OF this, of "Some ?e"] obtain h2 where
    h2: "updE h1 (Some q) (\<lambda>y. y\<lparr>prev := Some ?e\<rparr>) = Some h2"
    and v2: "nexts h2 = nexts h1" "prevs h2 = (prevs h1)(q \<mapsto> Some ?e)" "owners h2 = owners h1"
      "vals h2 = vals h1" "sizes h2 = sizes h1" "nelems h2 = nelems h1" "nlists h2 = nlists h1"
    by blast
  have "nexts h2 m \<noteq> None" using mq(1) ne1 by (simp add: v1 v2)
  from step_next[OF this, of "Some ?e"] obtain h3 where
    h3: "updE h2 (Some m) (\<lambda>y. y\<lparr>next := Some ?e\<rparr>) = Some h3"
    and v3: "nexts h3 = (nexts h2)(m \<mapsto> Some ?e)" "prevs h3 = prevs h2" "owners h3 = owners h2"
      "vals h3 = vals h2" "sizes h3 = sizes h2" "nelems h3 = nelems h2" "nlists h3 = nlists h2"
    by blast
  have "sizes h3 l = Some (int (length (A @ B)))"
    using r by (simp add: v1 v2 v3 ring_def)
  from step_size[OF this, of "\<lambda>s. s + 1"] obtain h4 where
    h4: "updL h3 (Some l) (\<lambda>L. L\<lparr>size' := size' L + 1\<rparr>) = Some h4"
    and v4: "nexts h4 = nexts h3" "prevs h4 = prevs h3" "owners h4 = owners h3"
      "vals h4 = vals h3" "sizes h4 = (sizes h3)(l \<mapsto> int (length (A @ B)) + 1)"
      "nelems h4 = nelems h3" "nlists h4 = nlists h3"
    by blast
  have h1': "alloc h \<lparr>prev = Some m, next = Some q, list = Some l, Value = v\<rparr> = h1"
    by (simp add: h1_def)
  have res: "insertValueAfter h (Some l) v (Some m) = Some (Some ?e, h4)"
    unfolding insertValueAfter_def
    by (simp add: x Let_def h1' x1 h2 h3 h4)
  have N: "nexts h4 = (nexts h)(?e \<mapsto> Some q, m \<mapsto> Some ?e)"
    and P: "prevs h4 = (prevs h)(?e \<mapsto> Some m, q \<mapsto> Some ?e)"
    by (simp_all add: v1 v2 v3 v4)
  have "lnk (nexts h4) (prevs h4) (?pre @ ?e # ?post)"
    by (rule lnk_insert[OF lk _ _ ring_parts[OF r] e1]) (simp_all add: N P m q)
  then have lk4: "lnk (nexts h4) (prevs h4) (Root l # map Elem (A @ ?n # B) @ [Root l])"
    by simp
  have nn: "?n \<notin> set (A @ B)" using cells by auto
  have d4: "distinct (A @ ?n # B)" using r nn by (simp add: ring_def)
  have o4: "\<forall>k\<in>set (A @ ?n # B). owners h4 (Elem k) = Some (Some l)"
    using r by (auto simp: ring_def v1 v2 v3 v4)
  have s4: "sizes h4 l = Some (int (length (A @ ?n # B)))"
    by (simp add: v4)
  have "ring h4 l (A @ ?n # B)"
    unfolding ring_def using d4 lk4 o4 s4 by blast
  then show ?thesis
    using res N P by (simp add: v1 v2 v3 v4)
qed

lemma cells_parts:
  assumes d: "distinct (A @ B)"
  shows "distinct (Root l # map Elem A)" "distinct (map Elem B @ [Root l])"
    "set (butlast (map Elem B @ [Root l])) \<inter> set (Root l # map Elem A) = {}"
    "set (tl (Root l # map Elem A)) \<inter> set (map Elem B @ [Root l]) = {}"
proof -
  show "distinct (Root l # map Elem A)" using d by (auto simp: distinct_map inj_on_def)
  show "distinct (map Elem B @ [Root l])" using d by (auto simp: distinct_map inj_on_def)
  show "set (butlast (map Elem B @ [Root l])) \<inter> set (Root l # map Elem A) = {}"
    using d by (auto simp: butlast_append)
  show "set (tl (Root l # map Elem A)) \<inter> set (map Elem B @ [Root l]) = {}"
    using d by auto
qed

lemma getE_of_views:
  assumes "nexts h p = Some nx" "prevs h p = Some pv"
  shows "\<exists>x. getE h (Some p) = Some x \<and> next x = nx \<and> prev x = pv"
  using assms by (auto simp: view_defs)

lemma getE_of_nexts:
  assumes "nexts h p = Some nx"
  shows "\<exists>x. getE h (Some p) = Some x \<and> next x = nx"
  using assms by (auto simp: view_defs)

lemma Remove_ring:
  assumes r: "ring h l (A @ n # B)"
    and m: "m = last (Root l # map Elem A)" and q: "q = hd (map Elem B @ [Root l])"
  shows "\<exists>h' v. Remove h (Some l) (Some (Elem n)) = Some (v, h')
     \<and> vals h (Elem n) = Some v
     \<and> ring h' l (A @ B)
     \<and> nexts h' = (nexts h)(m \<mapsto> Some q, Elem n \<mapsto> None)
     \<and> prevs h' = (prevs h)(q \<mapsto> Some m, Elem n \<mapsto> None)
     \<and> owners h' = (owners h)(Elem n \<mapsto> None)
     \<and> vals h' = vals h
     \<and> sizes h' = (sizes h)(l \<mapsto> int (length (A @ n # B)) - 1)
     \<and> nelems h' = nelems h \<and> nlists h' = nlists h"
proof -
  let ?e = "Elem n"
  let ?pre = "Root l # map Elem A" let ?post = "map Elem B @ [Root l]"
  have lk: "lnk (nexts h) (prevs h) (?pre @ ?e # ?post)"
    using r by (simp add: ring_def)
  have d: "distinct (A @ B)" and nn: "n \<notin> set (A @ B)" using r by (auto simp: ring_def)
  have e1: "?e \<notin> set ?pre" "?e \<notin> set ?post" using nn by auto
  have mid: "prevs h ?e = Some (Some m)" "nexts h ?e = Some (Some q)"
    using lnk_mid[OF lk] m q by simp_all
  have own: "owners h ?e = Some (Some l)" using r by (simp add: ring_def)
  obtain x where x: "getE h (Some ?e) = Some x" "next x = Some q" "prev x = Some m"
    using getE_of_views[OF mid(2) mid(1)] by blast
  have xl: "list x = Some l" using own x(1) by (simp add: owners_def)
  have ma: "nexts h m \<noteq> None" using ring_cells_alloc[OF r, of m] m by (cases A rule: rev_cases) auto
  have qa: "nexts h q \<noteq> None" using ring_cells_alloc[OF r, of q] q by (cases B) auto
  have ne: "m \<noteq> ?e" "q \<noteq> ?e" using e1 m q
     apply (metis last_in_set list.distinct(1))
    by (metis Nil_is_append_conv e1(2) hd_in_set not_Cons_self2 q)
  from step_next[OF ma, of "Some q"] obtain h1 where
    h1: "updE h (Some m) (\<lambda>y. y\<lparr>next := Some q\<rparr>) = Some h1"
    and v1: "nexts h1 = (nexts h)(m \<mapsto> Some q)" "prevs h1 = prevs h" "owners h1 = owners h"
      "vals h1 = vals h" "sizes h1 = sizes h" "nelems h1 = nelems h" "nlists h1 = nlists h"
    by blast
  have "nexts h1 ?e = Some (Some q)" "prevs h1 ?e = Some (Some m)"
    using mid ne by (simp_all add: v1)
  from getE_of_views[OF this] obtain x1 where
    x1: "getE h1 (Some ?e) = Some x1" "next x1 = Some q" "prev x1 = Some m" by blast
  have "nexts h1 q \<noteq> None" using qa by (simp add: v1)
  from step_prev[OF this, of "Some m"] obtain h2 where
    h2: "updE h1 (Some q) (\<lambda>y. y\<lparr>prev := Some m\<rparr>) = Some h2"
    and v2: "nexts h2 = nexts h1" "prevs h2 = (prevs h1)(q \<mapsto> Some m)" "owners h2 = owners h1"
      "vals h2 = vals h1" "sizes h2 = sizes h1" "nelems h2 = nelems h1" "nlists h2 = nlists h1"
    by blast
  have "nexts h2 ?e \<noteq> None" using mid ne by (simp add: v1 v2)
  from step_prev[OF this, of None] obtain h3 where
    h3: "updE h2 (Some ?e) (\<lambda>y. y\<lparr>prev := None\<rparr>) = Some h3"
    and v3: "nexts h3 = nexts h2" "prevs h3 = (prevs h2)(?e \<mapsto> None)" "owners h3 = owners h2"
      "vals h3 = vals h2" "sizes h3 = sizes h2" "nelems h3 = nelems h2" "nlists h3 = nlists h2"
    by blast
  have "nexts h3 ?e \<noteq> None" using mid ne by (simp add: v1 v2 v3)
  from step_next[OF this, of None] obtain h4 where
    h4: "updE h3 (Some ?e) (\<lambda>y. y\<lparr>next := None\<rparr>) = Some h4"
    and v4: "nexts h4 = (nexts h3)(?e \<mapsto> None)" "prevs h4 = prevs h3" "owners h4 = owners h3"
      "vals h4 = vals h3" "sizes h4 = sizes h3" "nelems h4 = nelems h3" "nlists h4 = nlists h3"
    by blast
  have "nexts h4 ?e \<noteq> None" by (simp add: v4)
  from step_list[OF this, of None] obtain h5 where
    h5: "updE h4 (Some ?e) (\<lambda>y. y\<lparr>list := None\<rparr>) = Some h5"
    and v5: "nexts h5 = nexts h4" "prevs h5 = prevs h4" "owners h5 = (owners h4)(?e \<mapsto> None)"
      "vals h5 = vals h4" "sizes h5 = sizes h4" "nelems h5 = nelems h4" "nlists h5 = nlists h4"
    by blast
  have "sizes h5 l = Some (int (length (A @ n # B)))"
    using r by (simp add: v1 v2 v3 v4 v5 ring_def)
  from step_size[OF this, of "\<lambda>s. s - 1"] obtain h6 where
    h6: "updL h5 (Some l) (\<lambda>L. L\<lparr>size' := size' L - 1\<rparr>) = Some h6"
    and v6: "nexts h6 = nexts h5" "prevs h6 = prevs h5" "owners h6 = owners h5"
      "vals h6 = vals h5" "sizes h6 = (sizes h5)(l \<mapsto> int (length (A @ n # B)) - 1)"
      "nelems h6 = nelems h5" "nlists h6 = nlists h5"
    by blast
  have "vals h6 ?e = vals h ?e" by (simp add: v1 v2 v3 v4 v5 v6)
  moreover have "vals h ?e = Some (Value x)" using x(1) by (simp add: vals_def)
  ultimately obtain x6 where x6: "getE h6 (Some ?e) = Some x6" "Value x6 = Value x"
    by (auto simp: vals_def)
  have res: "Remove h (Some l) (Some ?e) = Some (Value x, h6)"
    unfolding Remove_def
    by (simp add: x xl h1 x1 h2 h3 h4 h5 h6 x6)
  have N: "nexts h6 = (nexts h)(m \<mapsto> Some q, ?e \<mapsto> None)"
    and P: "prevs h6 = (prevs h)(q \<mapsto> Some m, ?e \<mapsto> None)"
    by (simp_all add: v1 v2 v3 v4 v5 v6)
  have "lnk ((nexts h)(m \<mapsto> Some q)) ((prevs h)(q \<mapsto> Some m)) (?pre @ ?post)"
    by (rule lnk_unlink[OF lk _ _ cells_parts[OF d] e1]) (simp_all add: m q)
  moreover have "lnk (nexts h6) (prevs h6) (?pre @ ?post) = lnk ((nexts h)(m \<mapsto> Some q)) ((prevs h)(q \<mapsto> Some m)) (?pre @ ?post)"
    by (rule lnk_cong) (use e1 in \<open>auto simp: N P dest: in_set_butlastD list.set_sel(2)\<close>)
  ultimately have lk6: "lnk (nexts h6) (prevs h6) (Root l # map Elem (A @ B) @ [Root l])"
    by simp
  have o6: "\<forall>k\<in>set (A @ B). owners h6 (Elem k) = Some (Some l)"
    using r nn by (auto simp: ring_def v1 v2 v3 v4 v5 v6)
  have s6: "sizes h6 l = Some (int (length (A @ B)))"
    by (simp add: v6)
  have "ring h6 l (A @ B)"
    unfolding ring_def using d lk6 o6 s6 by blast
  then show ?thesis
    using res N P x(1) by (simp add: v1 v2 v3 v4 v5 v6 vals_def)
qed

lemma last_pre_in: "last (Root l # map Elem A) \<in> set (Root l # map Elem A)"
  by (rule last_in_set) simp

lemma hd_post_in: "hd (map Elem B @ [Root l]) \<in> set (map Elem B @ [Root l])"
  by (rule hd_in_set) simp

lemma moveAfter_ring:
  assumes r: "ring h l (A @ n # B)"
    and m: "m = last (Root l # map Elem A)" and q: "q = hd (map Elem B @ [Root l])"
    and split: "A @ B = A' @ B'"
    and mk: "mk = last (Root l # map Elem A')" and q': "q' = hd (map Elem B' @ [Root l])"
  shows "\<exists>h'. moveAfter h (Some l) (Some (Elem n)) (Some mk) = Some h'
     \<and> ring h' l (A' @ n # B')
     \<and> nexts h' = (nexts h)(m \<mapsto> Some q, Elem n \<mapsto> Some q', mk \<mapsto> Some (Elem n))
     \<and> prevs h' = (prevs h)(q \<mapsto> Some m, Elem n \<mapsto> Some mk, q' \<mapsto> Some (Elem n))
     \<and> owners h' = owners h \<and> vals h' = vals h \<and> sizes h' = sizes h
     \<and> nelems h' = nelems h \<and> nlists h' = nlists h"
proof -
  let ?e = "Elem n"
  let ?pre = "Root l # map Elem A" let ?post = "map Elem B @ [Root l]"
  let ?pre' = "Root l # map Elem A'" let ?post' = "map Elem B' @ [Root l]"
  have lk: "lnk (nexts h) (prevs h) (?pre @ ?e # ?post)"
    using r by (simp add: ring_def)
  have d: "distinct (A @ B)" and nn: "n \<notin> set (A @ B)" using r by (auto simp: ring_def)
  have d': "distinct (A' @ B')" and nn': "n \<notin> set (A' @ B')" using d nn split by simp_all
  have e1: "?e \<notin> set ?pre" "?e \<notin> set ?post" using nn by auto
  have e1': "?e \<notin> set ?pre'" "?e \<notin> set ?post'" using nn' by auto
  have mid: "prevs h ?e = Some (Some m)" "nexts h ?e = Some (Some q)"
    using lnk_mid[OF lk] m q by simp_all
  obtain x where x: "getE h (Some ?e) = Some x" "next x = Some q" "prev x = Some m"
    using getE_of_views[OF mid(2) mid(1)] by blast
  have min: "m \<in> set ?pre" unfolding m by (rule last_pre_in)
  have qin: "q \<in> set ?post" unfolding q by (rule hd_post_in)
  have mkin: "mk \<in> set ?pre'" unfolding mk by (rule last_pre_in)
  have q'in: "q' \<in> set ?post'" unfolding q' by (rule hd_post_in)
  have ne: "m \<noteq> ?e" "q \<noteq> ?e" "mk \<noteq> ?e" "q' \<noteq> ?e"
    using e1 e1' min qin mkin q'in by blast+
  have ma: "nexts h m \<noteq> None" using ring_cells_alloc[OF r, of m] min by auto
  have qa: "nexts h q \<noteq> None" using ring_cells_alloc[OF r, of q] qin by auto
  have "set (A @ B) = set (A' @ B')" using split by simp
  then have sub: "set A' \<subseteq> set (A @ B)" "set B' \<subseteq> set (A @ B)" by auto
  have mka: "nexts h mk \<noteq> None" using ring_cells_alloc[OF r, of mk] mkin sub by auto
  have q'a: "nexts h q' \<noteq> None" using ring_cells_alloc[OF r, of q'] q'in sub by auto
  from step_next[OF ma, of "Some q"] obtain h1 where
    h1: "updE h (Some m) (\<lambda>y. y\<lparr>next := Some q\<rparr>) = Some h1"
    and v1: "nexts h1 = (nexts h)(m \<mapsto> Some q)" "prevs h1 = prevs h" "owners h1 = owners h"
      "vals h1 = vals h" "sizes h1 = sizes h" "nelems h1 = nelems h" "nlists h1 = nlists h"
    by blast
  have "nexts h1 ?e = Some (Some q)" "prevs h1 ?e = Some (Some m)"
    using mid ne by (simp_all add: v1)
  from getE_of_views[OF this] obtain x1 where
    x1: "getE h1 (Some ?e) = Some x1" "next x1 = Some q" "prev x1 = Some m" by blast
  have "nexts h1 q \<noteq> None" using qa by (simp add: v1)
  from step_prev[OF this, of "Some m"] obtain h2 where
    h2: "updE h1 (Some q) (\<lambda>y. y\<lparr>prev := Some m\<rparr>) = Some h2"
    and v2: "nexts h2 = nexts h1" "prevs h2 = (prevs h1)(q \<mapsto> Some m)" "owners h2 = owners h1"
      "vals h2 = vals h1" "sizes h2 = sizes h1" "nelems h2 = nelems h1" "nlists h2 = nlists h1"
    by blast
  have lk2: "lnk (nexts h2) (prevs h2) (?pre @ ?post)"
    unfolding v1 v2
    by (rule lnk_unlink[OF lk _ _ cells_parts[OF d] e1]) (simp_all add: m q)
  have lk2': "lnk (nexts h2) (prevs h2) (?pre' @ ?post')"
  proof -
    have "?pre' @ ?post' = Root l # map Elem (A' @ B') @ [Root l]" by simp
    also have "\<dots> = Root l # map Elem (A @ B) @ [Root l]" by (simp only: split)
    also have "\<dots> = ?pre @ ?post" by simp
    finally show ?thesis using lk2 by (simp only:)
  qed
  have mq2: "nexts h2 mk = Some (Some q')"
    using lk2' unfolding lnk_append mk q' by simp
  have "nexts h2 ?e \<noteq> None" using mid ne by (simp add: v1 v2)
  from step_prev[OF this, of "Some mk"] obtain h3 where
    h3: "updE h2 (Some ?e) (\<lambda>y. y\<lparr>prev := Some mk\<rparr>) = Some h3"
    and v3: "nexts h3 = nexts h2" "prevs h3 = (prevs h2)(?e \<mapsto> Some mk)" "owners h3 = owners h2"
      "vals h3 = vals h2" "sizes h3 = sizes h2" "nelems h3 = nelems h2" "nlists h3 = nlists h2"
    by blast
  have "nexts h3 mk = Some (Some q')" using mq2 by (simp add: v3)
  from getE_of_nexts[OF this] obtain m3 where
    m3: "getE h3 (Some mk) = Some m3" "next m3 = Some q'" by blast
  have "nexts h3 ?e \<noteq> None" using mid ne by (simp add: v1 v2 v3)
  from step_next[OF this, of "Some q'"] obtain h4 where
    h4: "updE h3 (Some ?e) (\<lambda>y. y\<lparr>next := Some q'\<rparr>) = Some h4"
    and v4: "nexts h4 = (nexts h3)(?e \<mapsto> Some q')" "prevs h4 = prevs h3" "owners h4 = owners h3"
      "vals h4 = vals h3" "sizes h4 = sizes h3" "nelems h4 = nelems h3" "nlists h4 = nlists h3"
    by blast
  have "nexts h4 mk = Some (Some q')" using mq2 ne by (simp add: v3 v4)
  from getE_of_nexts[OF this] obtain m4 where
    m4: "getE h4 (Some mk) = Some m4" "next m4 = Some q'" by blast
  have "nexts h4 q' \<noteq> None" using q'a ne by (simp add: v1 v2 v3 v4)
  from step_prev[OF this, of "Some ?e"] obtain h5 where
    h5: "updE h4 (Some q') (\<lambda>y. y\<lparr>prev := Some ?e\<rparr>) = Some h5"
    and v5: "nexts h5 = nexts h4" "prevs h5 = (prevs h4)(q' \<mapsto> Some ?e)" "owners h5 = owners h4"
      "vals h5 = vals h4" "sizes h5 = sizes h4" "nelems h5 = nelems h4" "nlists h5 = nlists h4"
    by blast
  have "nexts h5 mk \<noteq> None" using mq2 ne by (simp add: v3 v4 v5)
  from step_next[OF this, of "Some ?e"] obtain h6 where
    h6: "updE h5 (Some mk) (\<lambda>y. y\<lparr>next := Some ?e\<rparr>) = Some h6"
    and v6: "nexts h6 = (nexts h5)(mk \<mapsto> Some ?e)" "prevs h6 = prevs h5" "owners h6 = owners h5"
      "vals h6 = vals h5" "sizes h6 = sizes h5" "nelems h6 = nelems h5" "nlists h6 = nlists h5"
    by blast
  have res: "moveAfter h (Some l) (Some ?e) (Some mk) = Some h6"
    unfolding moveAfter_def using ne(3)
    by (simp add: x h1 x1 h2 h3 m3 h4 m4 h5 h6)
  have N: "nexts h6 = (nexts h2)(?e \<mapsto> Some q', mk \<mapsto> Some ?e)"
    and P: "prevs h6 = (prevs h2)(?e \<mapsto> Some mk, q' \<mapsto> Some ?e)"
    by (simp_all add: v3 v4 v5 v6)
  have "lnk (nexts h6) (prevs h6) (?pre' @ ?e # ?post')"
    by (rule lnk_insert[OF lk2' _ _ cells_parts[OF d'] e1']) (simp_all add: N P mk q')
  then have lk6: "lnk (nexts h6) (prevs h6) (Root l # map Elem (A' @ n # B') @ [Root l])"
    by simp
  have d6: "distinct (A' @ n # B')" using d' nn' by simp
  have "set (A' @ n # B') = set (A @ n # B)" using \<open>set (A @ B) = set (A' @ B')\<close> by auto
  then have o6: "\<forall>k\<in>set (A' @ n # B'). owners h6 (Elem k) = Some (Some l)"
    using r by (simp add: ring_def v1 v2 v3 v4 v5 v6)
  have "length (A' @ n # B') = length (A @ n # B)"
    using arg_cong[OF split, of length] by simp
  then have s6: "sizes h6 l = Some (int (length (A' @ n # B')))"
    using r by (simp add: ring_def v1 v2 v3 v4 v5 v6)
  have "ring h6 l (A' @ n # B')"
    unfolding ring_def using d6 lk6 o6 s6 by blast
  then show ?thesis
    using res by (simp add: N P v1 v2 v3 v4 v5 v6)
qed

lemma Next_views:
  assumes "owners h p = Some (Some l)" "nexts h p = Some nx"
  shows "Next h (Some p) = Some (if nx = Some (Root l) then None else nx)"
  using assms by (auto simp: Next_def view_defs)

lemma Prev_views:
  assumes "owners h p = Some (Some l)" "prevs h p = Some pv"
  shows "Prev h (Some p) = Some (if pv = Some (Root l) then None else pv)"
  using assms by (auto simp: Prev_def view_defs)

lemma Front_views:
  assumes "sizes h l = Some s" "nexts h (Root l) = Some nx"
  shows "Front h (Some l) = Some (if s = 0 then None else nx)"
  using assms by (auto simp: Front_def view_defs Len_def getL_def getE_def)

lemma Back_views:
  assumes "sizes h l = Some s" "prevs h (Root l) = Some pv"
  shows "Back h (Some l) = Some (if s = 0 then None else pv)"
  using assms by (auto simp: Back_def view_defs Len_def getL_def getE_def)

lemma walkNext_seg:
  assumes "lnk (nexts h) P (map Elem ys @ [Root l])"
    and "\<forall>y\<in>set ys. owners h (Elem y) = Some (Some l)" and "length ys \<le> k"
  shows "walkNext k h (headPtr ys) = Some (map Elem ys)"
  using assms
proof (induction ys arbitrary: k)
  case Nil
  then show ?case by (simp add: headPtr_def)
next
  case (Cons y ys)
  then obtain k' where k: "k = Suc k'" "length ys \<le> k'" by (cases k) auto
  have nx: "nexts h (Elem y) = Some (Some (hd (map Elem ys @ [Root l])))"
    using Cons.prems(1) by (cases ys) auto
  have lk: "lnk (nexts h) P (map Elem ys @ [Root l])"
    using Cons.prems(1) by (cases ys) auto
  have "Next h (Some (Elem y)) = Some (headPtr ys)"
    using Next_views[OF _ nx, of l] Cons.prems(2) by (cases ys) (auto simp: headPtr_def)
  moreover have "walkNext k' h (headPtr ys) = Some (map Elem ys)"
    using Cons.IH[OF lk _ k(2)] Cons.prems(2) by simp
  ultimately show ?case by (simp add: k headPtr_def)
qed

lemma walkPrev_seg:
  assumes "lnk N (prevs h) (Root l # map Elem ys)"
    and "\<forall>y\<in>set ys. owners h (Elem y) = Some (Some l)" and "length ys \<le> k"
  shows "walkPrev k h (lastPtr ys) = Some (rev (map Elem ys))"
  using assms
proof (induction ys arbitrary: k rule: rev_induct)
  case Nil
  then show ?case by (simp add: lastPtr_def)
next
  case (snoc y ys)
  then obtain k' where k: "k = Suc k'" "length ys \<le> k'" by (cases k) auto
  have split: "Root l # map Elem (ys @ [y]) = (Root l # map Elem ys) @ [Elem y]" by simp
  have lk0: "lnk N (prevs h) ((Root l # map Elem ys) @ [Elem y])"
    using snoc.prems(1) unfolding split .
  have pv: "prevs h (Elem y) = Some (Some (last (Root l # map Elem ys)))"
    using lk0 unfolding lnk_append by simp
  have lk: "lnk N (prevs h) (Root l # map Elem ys)"
    using lk0 unfolding lnk_append by simp
  have "Prev h (Some (Elem y)) = Some (lastPtr ys)"
    using Prev_views[OF _ pv, of l] snoc.prems(2) by (auto simp: lastPtr_def last_map)
  moreover have "walkPrev k' h (lastPtr ys) = Some (rev (map Elem ys))"
    using snoc.IH[OF lk _ k(2)] snoc.prems(2) by simp
  ultimately show ?case by (simp add: k lastPtr_def)
qed

lemma ring_root:
  assumes "ring h l xs"
  shows "nexts h (Root l) = Some (Some (hd (map Elem xs @ [Root l])))"
    "prevs h (Root l) = Some (Some (last (Root l # map Elem xs)))"
    "lnk (nexts h) (prevs h) (map Elem xs @ [Root l])"
    "lnk (nexts h) (prevs h) (Root l # map Elem xs)"
proof -
  have lk: "lnk (nexts h) (prevs h) ((Root l # map Elem xs) @ [Root l])"
    using assms by (simp add: ring_def)
  show "prevs h (Root l) = Some (Some (last (Root l # map Elem xs)))"
    "lnk (nexts h) (prevs h) (Root l # map Elem xs)"
    using lk unfolding lnk_append by simp_all
  have lk': "lnk (nexts h) (prevs h) ([Root l] @ (map Elem xs @ [Root l]))"
    using assms by (simp add: ring_def)
  show "nexts h (Root l) = Some (Some (hd (map Elem xs @ [Root l])))"
    "lnk (nexts h) (prevs h) (map Elem xs @ [Root l])"
    using lk' unfolding lnk_append by simp_all
qed

lemma ring_forward:
  assumes "ring h l xs" "length xs \<le> k"
  shows "forward k h (Some l) = Some (map Elem xs)"
proof -
  have s: "sizes h l = Some (int (length xs))" using assms(1) by (simp add: ring_def)
  have "Front h (Some l) = Some (headPtr xs)"
    using Front_views[OF s ring_root(1)[OF assms(1)]] by (cases xs) (auto simp: headPtr_def)
  moreover have "walkNext k h (headPtr xs) = Some (map Elem xs)"
    by (rule walkNext_seg[OF ring_root(3)[OF assms(1)] _ assms(2)]) (use assms(1) in \<open>simp add: ring_def\<close>)
  ultimately show ?thesis by (simp add: forward_def)
qed

lemma ring_backward:
  assumes "ring h l xs" "length xs \<le> k"
  shows "backward k h (Some l) = Some (rev (map Elem xs))"
proof -
  have s: "sizes h l = Some (int (length xs))" using assms(1) by (simp add: ring_def)
  have "Back h (Some l) = Some (lastPtr xs)"
    using Back_views[OF s ring_root(2)[OF assms(1)]] by (auto simp: lastPtr_def last_map)
  moreover have "walkPrev k h (lastPtr xs) = Some (rev (map Elem xs))"
    by (rule walkPrev_seg[OF ring_root(4)[OF assms(1)] _ assms(2)]) (use assms(1) in \<open>simp add: ring_def\<close>)
  ultimately show ?thesis by (simp add: backward_def)
qed

lemma valuesOf_views:
  "valuesOf h ps = Some vs \<longleftrightarrow> map (vals h) ps = map Some vs"
proof (induction ps arbitrary: vs)
  case Nil
  then show ?case by auto
next
  case (Cons p ps)
  show ?case
  proof (cases "getE h (Some p)")
    case None
    then show ?thesis by (auto simp: vals_def)
  next
    case (Some x)
    then show ?thesis using Cons.IH
      by (cases vs; cases "valuesOf h ps") (auto simp: vals_def)
  qed
qed

lemma step_Init:
  assumes "nexts h (Root l) \<noteq> None"
  shows "\<exists>h'. Init h (Some l) = Some h'
     \<and> nexts h' = (nexts h)(Root l \<mapsto> Some (Root l))
     \<and> prevs h' = (prevs h)(Root l \<mapsto> Some (Root l))
     \<and> owners h' = owners h \<and> vals h' = vals h \<and> sizes h' = (sizes h)(l \<mapsto> 0)
     \<and> nelems h' = nelems h \<and> nlists h' = nlists h"
  using assms
  by (auto simp: view_defs Init_def updL_def getE_def getL_def Len_def fun_eq_iff split: option.splits eptr.splits)

lemma step_newList:
  "fst (newList h) = Some (nlists h)"
  "nexts (snd (newList h)) = (nexts h)(Root (nlists h) \<mapsto> None)"
  "prevs (snd (newList h)) = (prevs h)(Root (nlists h) \<mapsto> None)"
  "owners (snd (newList h)) = (owners h)(Root (nlists h) \<mapsto> None)"
  "vals (snd (newList h)) = (vals h)(Root (nlists h) \<mapsto> 0)"
  "sizes (snd (newList h)) = (sizes h)(nlists h \<mapsto> 0)"
  "nelems (snd (newList h)) = nelems h" "nlists (snd (newList h)) = Suc (nlists h)"
  by (auto simp: view_defs newList_def zeroElement_def getE_def getL_def Len_def fun_eq_iff split: option.splits eptr.splits)

lemma lazyInit_views:
  assumes "nexts h (Root l) = Some nx"
  shows "lazyInit h (Some l) = (if nx = None then Init h (Some l) else Some h)"
  using assms by (auto simp: lazyInit_def view_defs getL_def getE_def)

lemma getL_root:
  assumes "nexts h (Root l) = Some nx" "prevs h (Root l) = Some pv"
  shows "\<exists>L. getL h (Some l) = Some L \<and> next (root L) = nx \<and> prev (root L) = pv"
  using assms by (auto simp: view_defs getL_def getE_def)

lemma ring_Nil:
  "ring h l [] \<longleftrightarrow> nexts h (Root l) = Some (Some (Root l)) \<and> prevs h (Root l) = Some (Some (Root l))
      \<and> sizes h l = Some 0"
  by (auto simp: ring_def)

lemma ring_not_zero: "ring h l xs \<Longrightarrow> \<not> zeroList h l"
  using ring_root(1)[of h l xs] by (auto simp: zeroList_def)

lemma ring_frame:
  assumes "ring h l xs"
    and "\<And>p. p \<in> set (Root l # map Elem xs) \<Longrightarrow>
           nexts h' p = nexts h p \<and> prevs h' p = prevs h p \<and> owners h' p = owners h p"
    and "sizes h' l = sizes h l"
  shows "ring h' l xs"
proof -
  have "lnk (nexts h') (prevs h') (Root l # map Elem xs @ [Root l])
      = lnk (nexts h) (prevs h) (Root l # map Elem xs @ [Root l])"
    by (rule lnk_cong) (use assms(2) in \<open>auto simp: butlast_append\<close>)
  then show ?thesis using assms by (auto simp: ring_def)
qed

lemma lazyInit_lst:
  assumes "lst h l xs"
  shows "\<exists>h1. lazyInit h (Some l) = Some h1 \<and> ring h1 l xs
     \<and> (\<forall>p. p \<noteq> Root l \<longrightarrow> nexts h1 p = nexts h p \<and> prevs h1 p = prevs h p)
     \<and> (\<forall>p. nexts h1 p = None \<longleftrightarrow> nexts h p = None)
     \<and> owners h1 = owners h \<and> vals h1 = vals h \<and> sizes h1 = sizes h
     \<and> nelems h1 = nelems h \<and> nlists h1 = nlists h \<and> (ring h l xs \<longrightarrow> h1 = h)"
proof (cases "ring h l xs")
  case True
  then have "lazyInit h (Some l) = Some h"
    using lazyInit_views[OF ring_root(1)[OF True]] by simp
  then show ?thesis using True by simp
next
  case False
  then have z: "xs = []" "zeroList h l" using assms by (auto simp: lst_def)
  then have nx: "nexts h (Root l) = Some None" and sz: "sizes h l = Some 0"
    by (simp_all add: zeroList_def)
  have "nexts h (Root l) \<noteq> None" using nx by simp
  from step_Init[OF this] obtain h1 where
    h1: "Init h (Some l) = Some h1"
    and v1: "nexts h1 = (nexts h)(Root l \<mapsto> Some (Root l))"
      "prevs h1 = (prevs h)(Root l \<mapsto> Some (Root l))"
      "owners h1 = owners h" "vals h1 = vals h" "sizes h1 = (sizes h)(l \<mapsto> 0)"
      "nelems h1 = nelems h" "nlists h1 = nlists h"
    by blast
  have "lazyInit h (Some l) = Some h1" using lazyInit_views[OF nx] h1 by simp
  moreover have "ring h1 l xs" by (simp add: z ring_Nil v1)
  moreover have "sizes h1 = sizes h" using sz by (auto simp: v1)
  ultimately show ?thesis using False nx by (auto simp: v1)
qed

lemma allocated_cong:
  assumes "allocated h" "\<forall>p. nexts h' p = None \<longleftrightarrow> nexts h p = None"
    "nelems h' = nelems h" "nlists h' = nlists h"
  shows "allocated h'"
  using assms by (simp add: allocated_def)

lemma PushBack_ring:
  assumes fr: "nelems h \<notin> set xs" and r: "ring h l xs"
  shows "\<exists>h'. PushBack h (Some l) v = Some (Some (Elem (nelems h)), h')
     \<and> ring h' l (xs @ [nelems h])
     \<and> nexts h' = (nexts h)(Elem (nelems h) \<mapsto> Some (Root l),
           last (Root l # map Elem xs) \<mapsto> Some (Elem (nelems h)))
     \<and> prevs h' = (prevs h)(Elem (nelems h) \<mapsto> Some (last (Root l # map Elem xs)),
           Root l \<mapsto> Some (Elem (nelems h)))
     \<and> owners h' = (owners h)(Elem (nelems h) \<mapsto> Some l)
     \<and> vals h' = (vals h)(Elem (nelems h) \<mapsto> v)
     \<and> sizes h' = (sizes h)(l \<mapsto> int (length xs) + 1)
     \<and> nelems h' = Suc (nelems h) \<and> nlists h' = nlists h"
proof -
  have li: "lazyInit h (Some l) = Some h"
    using lazyInit_views[OF ring_root(1)[OF r]] by simp
  obtain L where L: "getL h (Some l) = Some L" "prev (root L) = Some (last (Root l # map Elem xs))"
    using getL_root[OF ring_root(1,2)[OF r]] by blast
  have r': "ring h l (xs @ [])" and fr': "nelems h \<notin> set (xs @ [])" using r fr by simp_all
  from insertValueAfter_ring[OF fr' r' refl refl, of v]
  show ?thesis unfolding PushBack_def by (simp add: li L)
qed

lemma PushFront_ring:
  assumes fr: "nelems h \<notin> set xs" and r: "ring h l xs"
  shows "\<exists>h'. PushFront h (Some l) v = Some (Some (Elem (nelems h)), h')
     \<and> ring h' l (nelems h # xs)
     \<and> nexts h' = (nexts h)(Elem (nelems h) \<mapsto> Some (hd (map Elem xs @ [Root l])),
           Root l \<mapsto> Some (Elem (nelems h)))
     \<and> prevs h' = (prevs h)(Elem (nelems h) \<mapsto> Some (Root l),
           hd (map Elem xs @ [Root l]) \<mapsto> Some (Elem (nelems h)))
     \<and> owners h' = (owners h)(Elem (nelems h) \<mapsto> Some l)
     \<and> vals h' = (vals h)(Elem (nelems h) \<mapsto> v)
     \<and> sizes h' = (sizes h)(l \<mapsto> int (length xs) + 1)
     \<and> nelems h' = Suc (nelems h) \<and> nlists h' = nlists h"
proof -
  have li: "lazyInit h (Some l) = Some h"
    using lazyInit_views[OF ring_root(1)[OF r]] by simp
  have r': "ring h l ([] @ xs)" and fr': "nelems h \<notin> set ([] @ xs)" using r fr by simp_all
  from insertValueAfter_ring[OF fr' r' refl refl, of v]
  show ?thesis unfolding PushFront_def by (simp add: li)
qed

lemma updE_vals:
  assumes "updE h p f = Some h'" "\<And>y. Value (f y) = Value y"
  shows "vals h' = vals h"
  using assms
  by (auto simp: updE_def updL_def vals_def getE_def fun_eq_iff split: option.splits eptr.splits)

lemma updE_owner_self:
  assumes "updE h p (\<lambda>y. y\<lparr>list := v\<rparr>) = Some h'"
  shows "\<exists>q. p = Some q \<and> owners h' q = Some v"
  using assms
  by (auto simp: updE_def updL_def owners_def getE_def fun_eq_iff split: option.splits eptr.splits)

lemma updL_size_views:
  assumes "updL h l (\<lambda>L. L\<lparr>size' := g (size' L)\<rparr>) = Some h'"
  shows "owners h' = owners h" "vals h' = vals h" "nexts h' = nexts h" "prevs h' = prevs h"
  using assms
  by (auto simp: updL_def view_defs getE_def fun_eq_iff split: option.splits eptr.splits)

section \<open>The operations preserve the invariant\<close>

lemma New_ring:
  "\<exists>h0. New h = Some (Some (nlists h), h0) \<and> ring h0 (nlists h) []
     \<and> nelems h0 = nelems h \<and> nlists h0 = Suc (nlists h)
     \<and> nexts h0 = (nexts h)(Root (nlists h) \<mapsto> Some (Root (nlists h)))
     \<and> prevs h0 = (prevs h)(Root (nlists h) \<mapsto> Some (Root (nlists h)))
     \<and> owners h0 = (owners h)(Root (nlists h) \<mapsto> None)
     \<and> vals h0 = (vals h)(Root (nlists h) \<mapsto> 0)
     \<and> sizes h0 = (sizes h)(nlists h \<mapsto> 0)"
proof -
  let ?l = "nlists h"
  obtain h1 where n: "newList h = (Some ?l, h1)" and h1: "h1 = snd (newList h)"
    using step_newList(1)[of h] by (cases "newList h") auto
  have "nexts h1 (Root ?l) \<noteq> None" by (simp add: h1 step_newList)
  from step_Init[OF this] obtain h2 where
    h2: "Init h1 (Some ?l) = Some h2"
    and v2: "nexts h2 = (nexts h1)(Root ?l \<mapsto> Some (Root ?l))"
      "prevs h2 = (prevs h1)(Root ?l \<mapsto> Some (Root ?l))"
      "owners h2 = owners h1" "vals h2 = vals h1" "sizes h2 = (sizes h1)(?l \<mapsto> 0)"
      "nelems h2 = nelems h1" "nlists h2 = nlists h1"
    by blast
  have "New h = Some (Some ?l, h2)" by (simp add: New_def n h2)
  moreover have "ring h2 ?l []" by (simp add: ring_Nil v2)
  ultimately show ?thesis by (simp add: v2 h1 step_newList)
qed

lemma pushAll_ring:
  assumes "ring h l xs" "\<forall>x\<in>set xs. x < nelems h"
  shows "\<exists>h' ys. run h (map (CallPushBack (Some l)) vs) = Some h' \<and> ring h' l (xs @ ys)
     \<and> map (vals h') (map Elem ys) = map Some vs
     \<and> (\<forall>x\<in>set xs. vals h' (Elem x) = vals h (Elem x))
     \<and> (\<forall>x\<in>set (xs @ ys). x < nelems h')"
  using assms
proof (induction vs arbitrary: h xs)
  case Nil
  then show ?case by simp
next
  case (Cons v vs)
  let ?n = "nelems h"
  have fr: "?n \<notin> set xs" using Cons.prems(2) by auto
  from PushBack_ring[OF fr Cons.prems(1), of v] obtain h1 where
    p: "PushBack h (Some l) v = Some (Some (Elem ?n), h1)"
    and r1: "ring h1 l (xs @ [?n])"
    and v1: "vals h1 = (vals h)(Elem ?n \<mapsto> v)" "nelems h1 = Suc ?n"
    by blast
  have b1: "\<forall>x\<in>set (xs @ [?n]). x < nelems h1" using Cons.prems(2) by (auto simp: v1)
  from Cons.IH[OF r1 b1] obtain h' ys where
    run: "run h1 (map (CallPushBack (Some l)) vs) = Some h'"
    and r': "ring h' l ((xs @ [?n]) @ ys)"
    and vs: "map (vals h') (map Elem ys) = map Some vs"
    and old: "\<forall>x\<in>set (xs @ [?n]). vals h' (Elem x) = vals h1 (Elem x)"
    and b': "\<forall>x\<in>set ((xs @ [?n]) @ ys). x < nelems h'"
    by blast
  have "run h (map (CallPushBack (Some l)) (v # vs)) = Some h'"
    by (simp add: p run)
  moreover have "ring h' l (xs @ (?n # ys))" using r' by simp
  moreover have "map (vals h') (map Elem (?n # ys)) = map Some (v # vs)"
    using vs old by (simp add: v1)
  moreover have "\<forall>x\<in>set xs. vals h' (Elem x) = vals h (Elem x)"
    using old fr by (auto simp: v1)
  moreover have "\<forall>x\<in>set (xs @ (?n # ys)). x < nelems h'" using b' by simp
  ultimately show ?case by blast
qed

lemma ring_values:
  assumes "ring h l xs" "map (vals h) (map Elem xs) = map Some vs" "length xs \<le> k"
  shows "forwardValues k h (Some l) = Some vs" "backwardValues k h (Some l) = Some (rev vs)"
    "Len h (Some l) = Some (int (length vs))"
proof -
  have "valuesOf h (map Elem xs) = Some vs" using assms(2) by (simp add: valuesOf_views)
  then show "forwardValues k h (Some l) = Some vs"
    by (simp add: forwardValues_def ring_forward[OF assms(1,3)])
  have "map (vals h) (rev (map Elem xs)) = map Some (rev vs)"
    using assms(2) by (simp add: rev_map[symmetric])
  then have "valuesOf h (rev (map Elem xs)) = Some (rev vs)" by (simp add: valuesOf_views)
  then show "backwardValues k h (Some l) = Some (rev vs)"
    by (simp add: backwardValues_def ring_backward[OF assms(1,3)])
  have "length xs = length vs" using arg_cong[OF assms(2), of length] by simp
  then show "Len h (Some l) = Some (int (length vs))"
    using assms(1) by (simp add: ring_def sizes_def)
qed

lemma allocated_elem: "allocated h \<Longrightarrow> owners h (Elem n) = Some o' \<Longrightarrow> n < nelems h"
  by (metis allocated_def view_None(2) not_le option.distinct(1))

lemma allocated_root: "allocated h \<Longrightarrow> l < nlists h \<Longrightarrow> nexts h (Root l) \<noteq> None"
  by (simp add: allocated_def)

lemma wf_frame:
  assumes w: "wf h" and c: "confined h l h'" and a: "allocated h'"
    and o: "owners h' (Root l) = Some None" and r: "zeroList h' l \<or> (\<exists>xs. ring h' l xs)"
  shows "wf h'"
  unfolding wf_def
proof (intro conjI allI impI)
  show "allocated h'" by (rule a)
next
  fix k assume k: "k < nlists h'"
  then have k': "k = l \<or> k < nlists h" using c by (simp add: confined_def)
  show "owners h' (Root k) = Some None"
  proof (cases "k = l")
    case True then show ?thesis using o by simp
  next
    case False then show ?thesis using c w k' by (simp add: confined_def wf_def)
  qed
next
  fix k assume k: "k < nlists h'"
  then have k': "k = l \<or> k < nlists h" using c by (simp add: confined_def)
  show "zeroList h' k \<or> (\<exists>xs. ring h' k xs)"
  proof (cases "k = l")
    case True then show ?thesis using r by simp
  next
    case False
    from w k' False have "zeroList h k \<or> (\<exists>xs. ring h k xs)" by (simp add: wf_def)
    then show ?thesis
    proof
      assume "zeroList h k"
      then have "zeroList h' k" using c False by (simp add: zeroList_def confined_def)
      then show ?thesis ..
    next
      assume "\<exists>xs. ring h k xs"
      then obtain xs where xs: "ring h k xs" ..
      have "ring h' k xs"
      proof (rule ring_frame[OF xs])
        show "sizes h' k = sizes h k" using c False by (simp add: confined_def)
      next
        fix p assume p: "p \<in> set (Root k # map Elem xs)"
        show "nexts h' p = nexts h p \<and> prevs h' p = prevs h p \<and> owners h' p = owners h p"
        proof (cases "p = Root k")
          case True then show ?thesis using c False by (simp add: confined_def)
        next
          case F: False
          then obtain x where x: "p = Elem x" "x \<in> set xs" using p by auto
          then have ow: "owners h (Elem x) = Some (Some k)" using xs by (simp add: ring_def)
          then have "x < nelems h" using w allocated_elem by (auto simp: wf_def)
          then show ?thesis using c ow False x by (simp add: confined_def)
        qed
      qed
      then show ?thesis by blast
    qed
  qed
qed

lemma ring_cell_cases:
  assumes "ring h l xs" "p \<in> set (Root l # map Elem xs)"
  shows "p = Root l \<or> (\<exists>x. p = Elem x \<and> owners h p = Some (Some l))"
  using assms by (auto simp: ring_def)

lemma ring_fresh:
  assumes "allocated h" "ring h l xs"
  shows "nelems h \<notin> set xs"
proof
  assume "nelems h \<in> set xs"
  then have "owners h (Elem (nelems h)) = Some (Some l)" using assms(2) by (simp add: ring_def)
  from allocated_elem[OF assms(1) this] show False by simp
qed

lemma wf_insert:
  assumes w: "wf h" and r: "ring h l (A @ B)"
    and m: "m = last (Root l # map Elem A)" and q: "q = hd (map Elem B @ [Root l])"
  shows "\<exists>h'. insertValueAfter h (Some l) v (Some m) = Some (Some (Elem (nelems h)), h')
     \<and> wf h' \<and> ring h' l (A @ nelems h # B)
     \<and> nexts h' = (nexts h)(Elem (nelems h) \<mapsto> Some q, m \<mapsto> Some (Elem (nelems h)))
     \<and> prevs h' = (prevs h)(Elem (nelems h) \<mapsto> Some m, q \<mapsto> Some (Elem (nelems h)))
     \<and> owners h' = (owners h)(Elem (nelems h) \<mapsto> Some l)
     \<and> vals h' = (vals h)(Elem (nelems h) \<mapsto> v)
     \<and> sizes h' = (sizes h)(l \<mapsto> int (length (A @ B)) + 1)
     \<and> nelems h' = Suc (nelems h) \<and> nlists h' = nlists h"
proof -
  let ?n = "nelems h"
  have al: "allocated h" using w by (simp add: wf_def)
  have fr: "?n \<notin> set (A @ B)" by (rule ring_fresh[OF al r])
  from insertValueAfter_ring[OF fr r m q, of v] obtain h' where
    res: "insertValueAfter h (Some l) v (Some m) = Some (Some (Elem ?n), h')"
    and r': "ring h' l (A @ ?n # B)"
    and N: "nexts h' = (nexts h)(Elem ?n \<mapsto> Some q, m \<mapsto> Some (Elem ?n))"
    and P: "prevs h' = (prevs h)(Elem ?n \<mapsto> Some m, q \<mapsto> Some (Elem ?n))"
    and O: "owners h' = (owners h)(Elem ?n \<mapsto> Some l)"
    and V: "vals h' = (vals h)(Elem ?n \<mapsto> v)"
    and S: "sizes h' = (sizes h)(l \<mapsto> int (length (A @ B)) + 1)"
    and C: "nelems h' = Suc ?n" "nlists h' = nlists h"
    by blast
  have min: "m \<in> set (Root l # map Elem (A @ B))" unfolding m using last_pre_in[of l A] by auto
  have qin: "q \<in> set (Root l # map Elem (A @ B))" unfolding q using hd_post_in[of B l] by auto
  have mc: "m = Root l \<or> (\<exists>x. m = Elem x \<and> owners h m = Some (Some l))"
    by (rule ring_cell_cases[OF r min])
  have qc: "q = Root l \<or> (\<exists>x. q = Elem x \<and> owners h q = Some (Some l))"
    by (rule ring_cell_cases[OF r qin])
  have ma: "nexts h m \<noteq> None" by (rule ring_cells_alloc[OF r min])
  have lr: "nexts h (Root l) \<noteq> None" using ring_cells_alloc[OF r, of "Root l"] by simp
  have conf: "confined h l h'"
    unfolding confined_def using mc qc by (auto simp: N P O S C)
  have E: "\<And>k. nexts h (Elem k) = None \<longleftrightarrow> nelems h \<le> k"
    and R: "\<And>k. nexts h (Root k) = None \<longleftrightarrow> nlists h \<le> k"
    using al by (simp_all add: allocated_def)
  have mE: "\<And>k. m = Elem k \<Longrightarrow> k < nelems h" using ma E by (metis not_le)
  have mR: "\<And>k. m = Root k \<Longrightarrow> k < nlists h" using ma R by (metis not_le)
  have "allocated h'"
    unfolding allocated_def using mE mR by (auto simp: N C E R)
  moreover have "owners h (Root l) = Some None"
    using w lr al by (metis allocated_def not_le wf_def)
  then have "owners h' (Root l) = Some None" by (simp add: O)
  ultimately have "wf h'" using wf_frame[OF w conf] r' by blast
  then show ?thesis using res r' N P O V S C by blast
qed

lemma wf_root_owner: "wf h \<Longrightarrow> nexts h (Root l) \<noteq> None \<Longrightarrow> owners h (Root l) = Some None"
  by (metis allocated_def not_le wf_def)

lemma wf_Remove:
  assumes w: "wf h" and r: "ring h l (A @ n # B)"
    and m: "m = last (Root l # map Elem A)" and q: "q = hd (map Elem B @ [Root l])"
  shows "\<exists>h' v. Remove h (Some l) (Some (Elem n)) = Some (v, h')
     \<and> vals h (Elem n) = Some v \<and> wf h'
     \<and> ring h' l (A @ B)
     \<and> nexts h' = (nexts h)(m \<mapsto> Some q, Elem n \<mapsto> None)
     \<and> prevs h' = (prevs h)(q \<mapsto> Some m, Elem n \<mapsto> None)
     \<and> owners h' = (owners h)(Elem n \<mapsto> None)
     \<and> vals h' = vals h
     \<and> sizes h' = (sizes h)(l \<mapsto> int (length (A @ n # B)) - 1)
     \<and> nelems h' = nelems h \<and> nlists h' = nlists h"
proof -
  have al: "allocated h" using w by (simp add: wf_def)
  from Remove_ring[OF r m q] obtain h' v where
    res: "Remove h (Some l) (Some (Elem n)) = Some (v, h')" "vals h (Elem n) = Some v"
    and r': "ring h' l (A @ B)"
    and N: "nexts h' = (nexts h)(m \<mapsto> Some q, Elem n \<mapsto> None)"
    and P: "prevs h' = (prevs h)(q \<mapsto> Some m, Elem n \<mapsto> None)"
    and O: "owners h' = (owners h)(Elem n \<mapsto> None)"
    and V: "vals h' = vals h"
    and S: "sizes h' = (sizes h)(l \<mapsto> int (length (A @ n # B)) - 1)"
    and C: "nelems h' = nelems h" "nlists h' = nlists h"
    by blast
  have min: "m \<in> set (Root l # map Elem (A @ n # B))" unfolding m using last_pre_in[of l A] by auto
  have qin: "q \<in> set (Root l # map Elem (A @ n # B))" unfolding q using hd_post_in[of B l] by auto
  have mc: "m = Root l \<or> (\<exists>x. m = Elem x \<and> owners h m = Some (Some l))"
    by (rule ring_cell_cases[OF r min])
  have qc: "q = Root l \<or> (\<exists>x. q = Elem x \<and> owners h q = Some (Some l))"
    by (rule ring_cell_cases[OF r qin])
  have nc: "owners h (Elem n) = Some (Some l)" using r by (simp add: ring_def)
  have ma: "nexts h m \<noteq> None" by (rule ring_cells_alloc[OF r min])
  have na: "nexts h (Elem n) \<noteq> None" using ring_cells_alloc[OF r, of "Elem n"] by simp
  have lr: "nexts h (Root l) \<noteq> None" using ring_cells_alloc[OF r, of "Root l"] by simp
  have conf: "confined h l h'"
    unfolding confined_def using mc qc nc by (auto simp: N P O S C)
  have "\<forall>p. nexts h' p = None \<longleftrightarrow> nexts h p = None" using ma na by (auto simp: N)
  then have "allocated h'" using allocated_cong[OF al] C by blast
  moreover have "owners h' (Root l) = Some None" using wf_root_owner[OF w lr] by (simp add: O)
  ultimately have "wf h'" using wf_frame[OF w conf] r' by blast
  then show ?thesis using res r' N P O V S C by blast
qed

lemma wf_moveAfter:
  assumes w: "wf h" and r: "ring h l (A @ n # B)"
    and split: "A @ B = A' @ B'"
    and mk: "mk = last (Root l # map Elem A')"
  shows "\<exists>h'. moveAfter h (Some l) (Some (Elem n)) (Some mk) = Some h'
     \<and> wf h' \<and> ring h' l (A' @ n # B')
     \<and> owners h' = owners h \<and> vals h' = vals h \<and> sizes h' = sizes h
     \<and> nelems h' = nelems h \<and> nlists h' = nlists h"
proof -
  define m where "m = last (Root l # map Elem A)"
  define q where "q = hd (map Elem B @ [Root l])"
  define q' where "q' = hd (map Elem B' @ [Root l])"
  have al: "allocated h" using w by (simp add: wf_def)
  from moveAfter_ring[OF r m_def q_def split mk q'_def] obtain h' where
    res: "moveAfter h (Some l) (Some (Elem n)) (Some mk) = Some h'"
    and r': "ring h' l (A' @ n # B')"
    and N: "nexts h' = (nexts h)(m \<mapsto> Some q, Elem n \<mapsto> Some q', mk \<mapsto> Some (Elem n))"
    and P: "prevs h' = (prevs h)(q \<mapsto> Some m, Elem n \<mapsto> Some mk, q' \<mapsto> Some (Elem n))"
    and O: "owners h' = owners h" and V: "vals h' = vals h" and S: "sizes h' = sizes h"
    and C: "nelems h' = nelems h" "nlists h' = nlists h"
    by blast
  have se: "set (A' @ B') = set (A @ B)" using split by simp
  have min: "m \<in> set (Root l # map Elem (A @ n # B))" unfolding m_def using last_pre_in[of l A] by auto
  have qin: "q \<in> set (Root l # map Elem (A @ n # B))" unfolding q_def using hd_post_in[of B l] by auto
  have sub: "set (Root l # map Elem A') \<subseteq> set (Root l # map Elem (A @ n # B))"
    "set (map Elem B' @ [Root l]) \<subseteq> set (Root l # map Elem (A @ n # B))"
    using se by auto
  have mkin: "mk \<in> set (Root l # map Elem (A @ n # B))"
    unfolding mk using last_pre_in[of l A'] sub(1) by blast
  have q'in: "q' \<in> set (Root l # map Elem (A @ n # B))"
    unfolding q'_def using hd_post_in[of B' l] sub(2) by blast
  note cc = ring_cell_cases[OF r min] ring_cell_cases[OF r qin] ring_cell_cases[OF r mkin]
    ring_cell_cases[OF r q'in]
  have nc: "owners h (Elem n) = Some (Some l)" using r by (simp add: ring_def)
  have ma: "nexts h m \<noteq> None" "nexts h mk \<noteq> None"
    by (rule ring_cells_alloc[OF r min], rule ring_cells_alloc[OF r mkin])
  have na: "nexts h (Elem n) \<noteq> None" using ring_cells_alloc[OF r, of "Elem n"] by simp
  have lr: "nexts h (Root l) \<noteq> None" using ring_cells_alloc[OF r, of "Root l"] by simp
  have conf: "confined h l h'"
    unfolding confined_def using cc nc by (auto simp: N P O S C)
  have "\<forall>p. nexts h' p = None \<longleftrightarrow> nexts h p = None" using ma na by (auto simp: N)
  then have "allocated h'" using allocated_cong[OF al] C by blast
  moreover have "owners h' (Root l) = Some None" using wf_root_owner[OF w lr] by (simp add: O)
  ultimately have "wf h'" using wf_frame[OF w conf] r' by blast
  then show ?thesis using res r' O V S C by blast
qed

lemma wf_Init:
  assumes w: "wf h" and l: "l < nlists h"
  shows "\<exists>h'. Init h (Some l) = Some h' \<and> wf h' \<and> ring h' l []
     \<and> owners h' = owners h \<and> vals h' = vals h
     \<and> nelems h' = nelems h \<and> nlists h' = nlists h"
proof -
  have al: "allocated h" using w by (simp add: wf_def)
  have lr: "nexts h (Root l) \<noteq> None" by (rule allocated_root[OF al l])
  from step_Init[OF lr] obtain h' where
    res: "Init h (Some l) = Some h'"
    and N: "nexts h' = (nexts h)(Root l \<mapsto> Some (Root l))"
    and P: "prevs h' = (prevs h)(Root l \<mapsto> Some (Root l))"
    and O: "owners h' = owners h" and V: "vals h' = vals h"
    and S: "sizes h' = (sizes h)(l \<mapsto> 0)"
    and C: "nelems h' = nelems h" "nlists h' = nlists h"
    by blast
  have r': "ring h' l []" by (simp add: ring_Nil N P S)
  have conf: "confined h l h'" unfolding confined_def by (auto simp: N P O S C)
  have "\<forall>p. nexts h' p = None \<longleftrightarrow> nexts h p = None" using lr by (auto simp: N)
  then have "allocated h'" using allocated_cong[OF al] C by blast
  moreover have "owners h' (Root l) = Some None" using wf_root_owner[OF w lr] by (simp add: O)
  ultimately have "wf h'" using wf_frame[OF w conf] r' by blast
  then show ?thesis using res r' O V C by blast
qed

lemma wf_newList:
  assumes w: "wf h"
  shows "wf (snd (newList h))" "zeroList (snd (newList h)) (nlists h)"
proof -
  let ?h = "snd (newList h)" let ?l = "nlists h"
  have al: "allocated h" using w by (simp add: wf_def)
  have fr: "nexts h (Root ?l) = None" using al by (simp add: allocated_def)
  have sz: "sizes h ?l = None" using fr by (simp add: sizes_None)
  have ow: "\<And>n. owners h (Elem n) \<noteq> None \<Longrightarrow> True" by simp
  show z: "zeroList ?h ?l" by (simp add: zeroList_def step_newList)
  have conf: "confined h ?l ?h"
    unfolding confined_def by (auto simp: step_newList)
  have "allocated ?h" using al by (auto simp: allocated_def step_newList)
  moreover have "owners ?h (Root ?l) = Some None" by (simp add: step_newList)
  ultimately show "wf ?h" using wf_frame[OF w conf] z by blast
qed

lemma wf_empty: "wf empty_heap"
  by (simp add: wf_def allocated_def empty_heap_def view_defs getE_def split: eptr.splits)

lemma cell_split:
  assumes "p \<in> set (Root l # map Elem ys)"
  shows "\<exists>A B. ys = A @ B \<and> p = last (Root l # map Elem A)"
proof (cases "p = Root l")
  case True
  then have "ys = [] @ ys \<and> p = last (Root l # map Elem [])" by simp
  then show ?thesis by blast
next
  case False
  then obtain x where x: "p = Elem x" "x \<in> set ys" using assms by auto
  then obtain A B where "ys = A @ x # B" by (meson split_list)
  then have "ys = (A @ [x]) @ B \<and> p = last (Root l # map Elem (A @ [x]))" using x by simp
  then show ?thesis by blast
qed

lemma confined_ring:
  assumes w: "wf h" and c: "confined h l h'" and k: "k \<noteq> l" and r: "ring h k ys"
  shows "ring h' k ys"
proof (rule ring_frame[OF r])
  show "sizes h' k = sizes h k" using c k by (simp add: confined_def)
next
  fix p assume p: "p \<in> set (Root k # map Elem ys)"
  show "nexts h' p = nexts h p \<and> prevs h' p = prevs h p \<and> owners h' p = owners h p"
  proof (cases "p = Root k")
    case True then show ?thesis using c k by (simp add: confined_def)
  next
    case F: False
    then obtain x where x: "p = Elem x" "x \<in> set ys" using p by auto
    then have ow: "owners h (Elem x) = Some (Some k)" using r by (simp add: ring_def)
    then have "x < nelems h" using w allocated_elem by (auto simp: wf_def)
    then show ?thesis using c ow k x by (simp add: confined_def)
  qed
qed

lemma confined_zero:
  assumes c: "confined h l h'" and k: "k \<noteq> l" and z: "zeroList h k"
  shows "zeroList h' k"
  using assms by (simp add: zeroList_def confined_def)

lemma confined_insert:
  assumes r: "ring h l xs" and m: "m \<in> set (Root l # map Elem xs)" and q: "q \<in> set (Root l # map Elem xs)"
    and N: "nexts h' = (nexts h)(Elem (nelems h) \<mapsto> a, m \<mapsto> b)"
    and P: "prevs h' = (prevs h)(Elem (nelems h) \<mapsto> c, q \<mapsto> d)"
    and O: "owners h' = (owners h)(Elem (nelems h) \<mapsto> e)"
    and S: "sizes h' = (sizes h)(l \<mapsto> s)"
    and C: "nelems h' = Suc (nelems h)" "nlists h' = nlists h"
  shows "confined h l h'"
  unfolding confined_def
  using ring_cell_cases[OF r m] ring_cell_cases[OF r q] by (auto simp: N P O S C)

lemma wf_insert_cell:
  assumes w: "wf h" and r: "ring h l xs" and m: "m \<in> set (Root l # map Elem xs)"
  shows "\<exists>h' ys. insertValueAfter h (Some l) v (Some m) = Some (Some (Elem (nelems h)), h')
     \<and> wf h' \<and> ring h' l ys \<and> confined h l h'"
proof -
  from cell_split[OF m] obtain A B where ab: "xs = A @ B" "m = last (Root l # map Elem A)" by blast
  have r': "ring h l (A @ B)" using r ab by simp
  define q where "q = hd (map Elem B @ [Root l])"
  have qin: "q \<in> set (Root l # map Elem xs)" unfolding q_def ab using hd_post_in[of B l] by auto
  from wf_insert[OF w r' ab(2) q_def, of v] obtain h' where
    h': "insertValueAfter h (Some l) v (Some m) = Some (Some (Elem (nelems h)), h')"
      "wf h'" "ring h' l (A @ nelems h # B)"
      "nexts h' = (nexts h)(Elem (nelems h) \<mapsto> Some q, m \<mapsto> Some (Elem (nelems h)))"
      "prevs h' = (prevs h)(Elem (nelems h) \<mapsto> Some m, q \<mapsto> Some (Elem (nelems h)))"
      "owners h' = (owners h)(Elem (nelems h) \<mapsto> Some l)"
      "sizes h' = (sizes h)(l \<mapsto> int (length (A @ B)) + 1)"
      "nelems h' = Suc (nelems h)" "nlists h' = nlists h"
    by blast
  have "confined h l h'" by (rule confined_insert[OF r m qin h'(4-9)])
  then show ?thesis using h'(1-3) by blast
qed

lemma wf_moveAfter_cell:
  assumes w: "wf h" and r: "ring h l xs" and n: "n \<in> set xs"
    and mk: "mk \<in> set (Root l # map Elem xs)" and ne: "mk \<noteq> Elem n"
  shows "\<exists>h' ys. moveAfter h (Some l) (Some (Elem n)) (Some mk) = Some h' \<and> wf h' \<and> ring h' l ys"
proof -
  from n obtain A B where xs: "xs = A @ n # B" by (meson split_list)
  have "mk \<in> set (Root l # map Elem (A @ B))" using mk ne xs by auto
  from cell_split[OF this] obtain A' B' where ab: "A @ B = A' @ B'" "mk = last (Root l # map Elem A')"
    by blast
  have r': "ring h l (A @ n # B)" using r xs by simp
  from wf_moveAfter[OF w r' ab] show ?thesis by blast
qed

lemma wf_Remove_cell:
  assumes w: "wf h" and r: "ring h l xs" and n: "n \<in> set xs"
  shows "\<exists>h' v. Remove h (Some l) (Some (Elem n)) = Some (v, h') \<and> wf h'"
proof -
  from n obtain A B where xs: "xs = A @ n # B" by (meson split_list)
  have r': "ring h l (A @ n # B)" using r xs by simp
  from wf_Remove[OF w r' refl refl] show ?thesis by blast
qed

lemma ring_prev_in:
  assumes r: "ring h l xs" and n: "n \<in> set xs"
  shows "\<exists>pm. prevs h (Elem n) = Some (Some pm) \<and> pm \<in> set (Root l # map Elem xs) \<and> pm \<noteq> Elem n"
proof -
  from n obtain A B where xs: "xs = A @ n # B" by (meson split_list)
  have lk: "lnk (nexts h) (prevs h) ((Root l # map Elem A) @ Elem n # (map Elem B @ [Root l]))"
    using r xs by (simp add: ring_def)
  have "prevs h (Elem n) = Some (Some (last (Root l # map Elem A)))"
    using lnk_mid[OF lk] by simp
  moreover have "last (Root l # map Elem A) \<in> set (Root l # map Elem A)" by (rule last_pre_in)
  moreover have "n \<notin> set A" using r xs by (simp add: ring_def)
  ultimately show ?thesis using xs by auto
qed

lemma ring_length_le:
  assumes "allocated h" "ring h l xs"
  shows "length xs \<le> nelems h"
proof -
  have "set xs \<subseteq> {..<nelems h}"
    using assms allocated_elem by (fastforce simp: ring_def)
  then have "card (set xs) \<le> card {..<nelems h}" by (intro card_mono) auto
  moreover have "distinct xs" using assms(2) by (simp add: ring_def)
  ultimately show ?thesis by (simp add: distinct_card)
qed

lemma lst_queries:
  assumes "lst h l xs"
  shows "Front h (Some l) = Some (headPtr xs)" "Back h (Some l) = Some (lastPtr xs)"
    "Len h (Some l) = Some (int (length xs))"
proof -
  from assms have "ring h l xs \<or> (xs = [] \<and> zeroList h l)" by (simp add: lst_def)
  then have "Front h (Some l) = Some (headPtr xs) \<and> Back h (Some l) = Some (lastPtr xs)
    \<and> Len h (Some l) = Some (int (length xs))"
  proof
    assume r: "ring h l xs"
    have s: "sizes h l = Some (int (length xs))" using r by (simp add: ring_def)
    have "Front h (Some l) = Some (headPtr xs)"
      using Front_views[OF s ring_root(1)[OF r]] by (cases xs) (auto simp: headPtr_def)
    moreover have "Back h (Some l) = Some (lastPtr xs)"
      using Back_views[OF s ring_root(2)[OF r]] by (auto simp: lastPtr_def last_map)
    ultimately show ?thesis using s by (simp add: sizes_def)
  next
    assume z: "xs = [] \<and> zeroList h l"
    then have s: "sizes h l = Some 0" and n: "nexts h (Root l) = Some None"
      and p: "prevs h (Root l) = Some None" by (simp_all add: zeroList_def)
    show ?thesis using Front_views[OF s n] Back_views[OF s p] s z
      by (simp add: headPtr_def lastPtr_def sizes_def)
  qed
  then show "Front h (Some l) = Some (headPtr xs)" "Back h (Some l) = Some (lastPtr xs)"
    "Len h (Some l) = Some (int (length xs))" by simp_all
qed

lemma wf_lst: "wf h \<Longrightarrow> l < nlists h \<Longrightarrow> \<exists>xs. lst h l xs"
  by (auto simp: wf_def lst_def)

lemma lst_forward:
  assumes "lst h l xs" "length xs \<le> k"
  shows "forward k h (Some l) = Some (map Elem xs)"
proof (cases "ring h l xs")
  case True
  then show ?thesis by (rule ring_forward[OF _ assms(2)])
next
  case False
  then have "xs = []" using assms(1) by (simp add: lst_def)
  then show ?thesis using lst_queries(1)[OF assms(1)] by (simp add: forward_def headPtr_def)
qed

lemma lst_unique:
  assumes "lst h l xs" "lst h l ys"
  shows "xs = ys"
proof -
  have "forward (length xs + length ys) h (Some l) = Some (map Elem xs)"
    by (rule lst_forward[OF assms(1)]) simp
  moreover have "forward (length xs + length ys) h (Some l) = Some (map Elem ys)"
    by (rule lst_forward[OF assms(2)]) simp
  ultimately have "map Elem xs = map Elem ys" by simp
  then show ?thesis by (simp add: inj_map_eq_map inj_on_def)
qed

lemma isList_cases:
  assumes "allocated h" "isList h l"
  shows "\<exists>k. l = Some k \<and> k < nlists h"
proof -
  from assms(2) obtain k where k: "l = Some k" "lists h k \<noteq> None"
    by (cases l) (auto simp: isList_def getL_def)
  then have "nexts h (Root k) \<noteq> None" by (simp add: nexts_def getE_def)
  then have "k < nlists h" using assms(1) by (metis allocated_def not_le)
  then show ?thesis using k by simp
qed

lemma live_cases:
  assumes w: "wf h" and l: "live h e"
  shows "\<exists>n. e = Some (Elem n) \<and> nexts h (Elem n) \<noteq> None \<and>
     (owners h (Elem n) = Some None \<or>
      (\<exists>k xs. owners h (Elem n) = Some (Some k) \<and> ring h k xs \<and> n \<in> set xs))"
proof -
  have al: "allocated h" using w by (simp add: wf_def)
  from l obtain n x where e: "e = Some (Elem n)" and x: "getE h (Some (Elem n)) = Some x"
    by (auto simp: live_def split: option.splits eptr.splits)
  have a: "nexts h (Elem n) \<noteq> None" using x by (simp add: nexts_def)
  have o: "owners h (Elem n) = Some (list x)" using x by (simp add: owners_def)
  show ?thesis
  proof (cases "list x")
    case None
    then show ?thesis using e a o by simp
  next
    case (Some k)
    then obtain ps where ps: "forward (nelems h) h (Some k) = Some ps" "Elem n \<in> set ps"
      using l e x by (auto simp: live_def split: option.splits)
    then have "getL h (Some k) \<noteq> None" by (auto simp: forward_def Front_def split: bind_splits)
    then have "isList h (Some k)" by (simp add: isList_def)
    then have k: "k < nlists h" using isList_cases[OF al] by blast
    from wf_lst[OF w k] obtain xs where xs: "lst h k xs" by blast
    have "length xs \<le> nelems h"
    proof (cases "ring h k xs")
      case True then show ?thesis by (rule ring_length_le[OF al])
    next
      case False then show ?thesis using xs by (simp add: lst_def)
    qed
    from lst_forward[OF xs this] ps have mem: "n \<in> set xs" by auto
    then have "ring h k xs" using xs by (auto simp: lst_def)
    then show ?thesis using e a o Some mem by auto
  qed
qed

lemma getE_owner:
  assumes "owners h p = Some ow"
  shows "\<exists>x. getE h (Some p) = Some x \<and> list x = ow"
  using assms by (auto simp: owners_def)

lemma live_owner:
  assumes w: "wf h" and l: "live h e"
  shows "\<exists>n x. e = Some (Elem n) \<and> getE h e = Some x \<and>
     (\<forall>k. list x = Some k \<longrightarrow> (\<exists>xs. ring h k xs \<and> n \<in> set xs))"
proof -
  from live_cases[OF w l] obtain n where n: "e = Some (Elem n)" "nexts h (Elem n) \<noteq> None"
    and c: "owners h (Elem n) = Some None \<or>
      (\<exists>k xs. owners h (Elem n) = Some (Some k) \<and> ring h k xs \<and> n \<in> set xs)" by blast
  from n(2) obtain x where x: "getE h (Some (Elem n)) = Some x" by (auto simp: nexts_def)
  then have "owners h (Elem n) = Some (list x)" by (simp add: owners_def)
  then have "\<forall>k. list x = Some k \<longrightarrow> (\<exists>xs. ring h k xs \<and> n \<in> set xs)" using c by auto
  then show ?thesis using n(1) x by blast
qed

lemma ring_unique: "ring h l xs \<Longrightarrow> ring h l ys \<Longrightarrow> xs = ys"
  using lst_unique[of h l xs ys] by (simp add: lst_def)

lemma confined_lst:
  assumes "wf h" "confined h l h'" "k \<noteq> l" "lst h k ys"
  shows "lst h' k ys"
  using assms confined_ring[OF assms(1,2,3)] confined_zero[OF assms(2,3)] by (auto simp: lst_def)

lemma wf_lazyInit:
  assumes w: "wf h" and k: "k < nlists h"
  shows "\<exists>h1 xs. lazyInit h (Some k) = Some h1 \<and> wf h1 \<and> ring h1 k xs \<and> lst h k xs
     \<and> owners h1 = owners h \<and> vals h1 = vals h \<and> nelems h1 = nelems h \<and> nlists h1 = nlists h
     \<and> (\<forall>j ys. j \<noteq> k \<longrightarrow> lst h j ys \<longrightarrow> lst h1 j ys)"
proof -
  from wf_lst[OF w k] obtain xs where xs: "lst h k xs" by blast
  show ?thesis
  proof (cases "ring h k xs")
    case True
    then have "lazyInit h (Some k) = Some h"
      using lazyInit_views[OF ring_root(1)[OF True]] by simp
    then show ?thesis using w True xs by auto
  next
    case False
    then have z: "xs = []" "zeroList h k" using xs by (auto simp: lst_def)
    then have nx: "nexts h (Root k) = Some None" by (simp add: zeroList_def)
    from step_Init[of h k] nx obtain h1 where
      i: "Init h (Some k) = Some h1"
      and N: "nexts h1 = (nexts h)(Root k \<mapsto> Some (Root k))"
      and P: "prevs h1 = (prevs h)(Root k \<mapsto> Some (Root k))"
      and O: "owners h1 = owners h" and V: "vals h1 = vals h"
      and S: "sizes h1 = (sizes h)(k \<mapsto> 0)"
      and C: "nelems h1 = nelems h" "nlists h1 = nlists h"
      by auto
    from wf_Init[OF w k] i have w1: "wf h1" and r1: "ring h1 k []" by auto
    have li: "lazyInit h (Some k) = Some h1" using lazyInit_views[OF nx] i by simp
    have conf: "confined h k h1" unfolding confined_def by (auto simp: N P O S C)
    have "\<forall>j ys. j \<noteq> k \<longrightarrow> lst h j ys \<longrightarrow> lst h1 j ys"
      using confined_lst[OF w conf] by blast
    then show ?thesis using li w1 r1 xs z O V C by auto
  qed
qed

lemma wf_PushBack:
  assumes w: "wf h" and l: "isList h l"
  shows "\<exists>r h'. PushBack h l v = Some (r, h') \<and> wf h'"
proof -
  have al: "allocated h" using w by (simp add: wf_def)
  from isList_cases[OF al l] obtain k where k: "l = Some k" "k < nlists h" by blast
  from wf_lazyInit[OF w k(2)] obtain h1 xs where
    li: "lazyInit h (Some k) = Some h1" and w1: "wf h1" and r1: "ring h1 k xs" by blast
  obtain L where L: "getL h1 (Some k) = Some L" "prev (root L) = Some (last (Root k # map Elem xs))"
    using getL_root[OF ring_root(1,2)[OF r1]] by blast
  have "last (Root k # map Elem xs) \<in> set (Root k # map Elem xs)" by (rule last_pre_in)
  from wf_insert_cell[OF w1 r1 this, of v] show ?thesis
    unfolding PushBack_def k by (auto simp: li L)
qed

lemma wf_PushFront:
  assumes w: "wf h" and l: "isList h l"
  shows "\<exists>r h'. PushFront h l v = Some (r, h') \<and> wf h'"
proof -
  have al: "allocated h" using w by (simp add: wf_def)
  from isList_cases[OF al l] obtain k where k: "l = Some k" "k < nlists h" by blast
  from wf_lazyInit[OF w k(2)] obtain h1 xs where
    li: "lazyInit h (Some k) = Some h1" and w1: "wf h1" and r1: "ring h1 k xs" by blast
  have "Root k \<in> set (Root k # map Elem xs)" by simp
  from wf_insert_cell[OF w1 r1 this, of v] show ?thesis
    unfolding PushFront_def k by (auto simp: li)
qed

lemma wf_InsertAfter:
  assumes w: "wf h" and l: "isList h l" and m: "live h mark"
  shows "\<exists>r h'. InsertAfter h l v mark = Some (r, h') \<and> wf h'"
proof -
  have al: "allocated h" using w by (simp add: wf_def)
  from isList_cases[OF al l] obtain k where k: "l = Some k" "k < nlists h" by blast
  from live_owner[OF w m] obtain n x where n: "mark = Some (Elem n)" and x: "getE h mark = Some x"
    and c: "\<forall>k. list x = Some k \<longrightarrow> (\<exists>xs. ring h k xs \<and> n \<in> set xs)" by blast
  show ?thesis
  proof (cases "list x = l")
    case False
    then show ?thesis using w x by (simp add: InsertAfter_def)
  next
    case True
    then obtain xs where xs: "ring h k xs" "n \<in> set xs" using c k by auto
    then have "Elem n \<in> set (Root k # map Elem xs)" by simp
    from wf_insert_cell[OF w xs(1) this, of v] show ?thesis
      using True x by (auto simp: InsertAfter_def k n)
  qed
qed

lemma wf_InsertBefore:
  assumes w: "wf h" and l: "isList h l" and m: "live h mark"
  shows "\<exists>r h'. InsertBefore h l v mark = Some (r, h') \<and> wf h'"
proof -
  have al: "allocated h" using w by (simp add: wf_def)
  from isList_cases[OF al l] obtain k where k: "l = Some k" "k < nlists h" by blast
  from live_owner[OF w m] obtain n x where n: "mark = Some (Elem n)" and x: "getE h mark = Some x"
    and c: "\<forall>k. list x = Some k \<longrightarrow> (\<exists>xs. ring h k xs \<and> n \<in> set xs)" by blast
  show ?thesis
  proof (cases "list x = l")
    case False
    then show ?thesis using w x by (simp add: InsertBefore_def)
  next
    case True
    then obtain xs where xs: "ring h k xs" "n \<in> set xs" using c k by auto
    from ring_prev_in[OF xs] obtain pm where
      pm: "prevs h (Elem n) = Some (Some pm)" "pm \<in> set (Root k # map Elem xs)" by blast
    have px: "prev x = Some pm" using pm(1) x n by (simp add: prevs_def)
    from wf_insert_cell[OF w xs(1) pm(2), of v] show ?thesis
      using True x px by (auto simp: InsertBefore_def k)
  qed
qed

lemma wf_Remove_op:
  assumes w: "wf h" and l: "isList h l" and m: "live h e"
  shows "\<exists>r h'. Remove h l e = Some (r, h') \<and> wf h'"
proof -
  have al: "allocated h" using w by (simp add: wf_def)
  from isList_cases[OF al l] obtain k where k: "l = Some k" "k < nlists h" by blast
  from live_owner[OF w m] obtain n x where n: "e = Some (Elem n)" and x: "getE h e = Some x"
    and c: "\<forall>k. list x = Some k \<longrightarrow> (\<exists>xs. ring h k xs \<and> n \<in> set xs)" by blast
  show ?thesis
  proof (cases "list x = l")
    case False
    then show ?thesis using w x by (simp add: Remove_def)
  next
    case True
    then obtain xs where xs: "ring h k xs" "n \<in> set xs" using c k by auto
    from wf_Remove_cell[OF w xs] show ?thesis unfolding k n by blast
  qed
qed

lemma wf_MoveToFront:
  assumes w: "wf h" and l: "isList h l" and m: "live h e"
  shows "\<exists>h'. MoveToFront h l e = Some h' \<and> wf h'"
proof -
  have al: "allocated h" using w by (simp add: wf_def)
  from isList_cases[OF al l] obtain k where k: "l = Some k" "k < nlists h" by blast
  from live_owner[OF w m] obtain n x where n: "e = Some (Elem n)" and x: "getE h e = Some x"
    and c: "\<forall>k. list x = Some k \<longrightarrow> (\<exists>xs. ring h k xs \<and> n \<in> set xs)" by blast
  show ?thesis
  proof (cases "list x = l")
    case False
    then show ?thesis using w x by (simp add: MoveToFront_def)
  next
    case True
    then obtain xs where xs: "ring h k xs" "n \<in> set xs" using c k by auto
    obtain L where L: "getL h (Some k) = Some L" using getL_root[OF ring_root(1,2)[OF xs(1)]] by blast
    show ?thesis
    proof (cases "next (root L) = e")
      case True
      then show ?thesis using w x \<open>list x = l\<close> L by (simp add: MoveToFront_def k)
    next
      case False
      have "Root k \<in> set (Root k # map Elem xs)" "Root k \<noteq> Elem n" by simp_all
      from wf_moveAfter_cell[OF w xs this] show ?thesis
        using False x \<open>list x = l\<close> L by (auto simp: MoveToFront_def k n)
    qed
  qed
qed

lemma wf_MoveToBack:
  assumes w: "wf h" and l: "isList h l" and m: "live h e"
  shows "\<exists>h'. MoveToBack h l e = Some h' \<and> wf h'"
proof -
  have al: "allocated h" using w by (simp add: wf_def)
  from isList_cases[OF al l] obtain k where k: "l = Some k" "k < nlists h" by blast
  from live_owner[OF w m] obtain n x where n: "e = Some (Elem n)" and x: "getE h e = Some x"
    and c: "\<forall>k. list x = Some k \<longrightarrow> (\<exists>xs. ring h k xs \<and> n \<in> set xs)" by blast
  show ?thesis
  proof (cases "list x = l")
    case False
    then show ?thesis using w x by (simp add: MoveToBack_def)
  next
    case True
    then obtain xs where xs: "ring h k xs" "n \<in> set xs" using c k by auto
    let ?mk = "last (Root k # map Elem xs)"
    obtain L where L: "getL h (Some k) = Some L" "prev (root L) = Some ?mk"
      using getL_root[OF ring_root(1,2)[OF xs(1)]] by blast
    show ?thesis
    proof (cases "prev (root L) = e")
      case True
      then show ?thesis using w x \<open>list x = l\<close> L by (simp add: MoveToBack_def k)
    next
      case False
      have "?mk \<in> set (Root k # map Elem xs)" by (rule last_pre_in)
      moreover have "?mk \<noteq> Elem n" using False L(2) n by auto
      ultimately show ?thesis using wf_moveAfter_cell[OF w xs, of ?mk]
        using False x \<open>list x = l\<close> L by (auto simp: MoveToBack_def k n)
    qed
  qed
qed

lemma wf_MoveAfter:
  assumes w: "wf h" and l: "isList h l" and m: "live h e" and mm: "live h mark"
  shows "\<exists>h'. MoveAfter h l e mark = Some h' \<and> wf h'"
proof -
  have al: "allocated h" using w by (simp add: wf_def)
  from isList_cases[OF al l] obtain k where k: "l = Some k" "k < nlists h" by blast
  from live_owner[OF w m] obtain n x where n: "e = Some (Elem n)" and x: "getE h e = Some x"
    and c: "\<forall>k. list x = Some k \<longrightarrow> (\<exists>xs. ring h k xs \<and> n \<in> set xs)" by blast
  from live_owner[OF w mm] obtain n2 x2 where n2: "mark = Some (Elem n2)" and x2: "getE h mark = Some x2"
    and c2: "\<forall>k. list x2 = Some k \<longrightarrow> (\<exists>xs. ring h k xs \<and> n2 \<in> set xs)" by blast
  show ?thesis
  proof (cases "list x = l \<and> list x2 = l \<and> e \<noteq> mark")
    case False
    then show ?thesis using w x x2 by (auto simp: MoveAfter_def)
  next
    case True
    then obtain xs where xs: "ring h k xs" "n \<in> set xs" using c k by auto
    from True obtain xs2 where xs2: "ring h k xs2" "n2 \<in> set xs2" using c2 k by auto
    have "xs2 = xs" by (rule ring_unique[OF xs2(1) xs(1)])
    then have "Elem n2 \<in> set (Root k # map Elem xs)" "Elem n2 \<noteq> Elem n"
      using xs2(2) True n n2 by auto
    from wf_moveAfter_cell[OF w xs this] show ?thesis
      using True x x2 by (auto simp: MoveAfter_def k n n2)
  qed
qed

lemma wf_MoveBefore:
  assumes w: "wf h" and l: "isList h l" and m: "live h e" and mm: "live h mark"
  shows "\<exists>h'. MoveBefore h l e mark = Some h' \<and> wf h'"
proof -
  have al: "allocated h" using w by (simp add: wf_def)
  from isList_cases[OF al l] obtain k where k: "l = Some k" "k < nlists h" by blast
  from live_owner[OF w m] obtain n x where n: "e = Some (Elem n)" and x: "getE h e = Some x"
    and c: "\<forall>k. list x = Some k \<longrightarrow> (\<exists>xs. ring h k xs \<and> n \<in> set xs)" by blast
  from live_owner[OF w mm] obtain n2 x2 where n2: "mark = Some (Elem n2)" and x2: "getE h mark = Some x2"
    and c2: "\<forall>k. list x2 = Some k \<longrightarrow> (\<exists>xs. ring h k xs \<and> n2 \<in> set xs)" by blast
  show ?thesis
  proof (cases "list x = l \<and> list x2 = l \<and> e \<noteq> mark")
    case False
    then show ?thesis using w x x2 by (auto simp: MoveBefore_def)
  next
    case True
    then obtain xs where xs: "ring h k xs" "n \<in> set xs" using c k by auto
    from True obtain xs2 where xs2: "ring h k xs2" "n2 \<in> set xs2" using c2 k by auto
    have "xs2 = xs" by (rule ring_unique[OF xs2(1) xs(1)])
    then have "n2 \<in> set xs" using xs2(2) by simp
    from ring_prev_in[OF xs(1) this] obtain pm where
      pm: "prevs h (Elem n2) = Some (Some pm)" "pm \<in> set (Root k # map Elem xs)" by blast
    have px: "prev x2 = Some pm" using pm(1) x2 n2 by (simp add: prevs_def)
    have eq: "MoveBefore h l e mark = moveAfter h l e (Some pm)"
      using True x x2 px by (simp add: MoveBefore_def)
    show ?thesis
    proof (cases "pm = Elem n")
      case True
      then show ?thesis using w eq n by (simp add: moveAfter_def)
    next
      case False
      have "MoveBefore h (Some k) (Some (Elem n)) mark = moveAfter h (Some k) (Some (Elem n)) (Some pm)"
        using eq k n by simp
      with wf_moveAfter_cell[OF w xs pm(2) False] show ?thesis unfolding k n by auto
    qed
  qed
qed

lemma wf_New: "wf h \<Longrightarrow> \<exists>r h'. New h = Some (r, h') \<and> wf h'"
proof -
  assume w: "wf h"
  let ?h = "snd (newList h)"
  have w1: "wf ?h" by (rule wf_newList(1)[OF w])
  have "nlists h < nlists ?h" by (simp add: step_newList)
  from wf_Init[OF w1 this] obtain h' where "Init ?h (Some (nlists h)) = Some h'" "wf h'" by blast
  moreover have "newList h = (Some (nlists h), ?h)" using step_newList(1)[of h] by (cases "newList h") simp
  ultimately show ?thesis by (auto simp: New_def split: prod.splits)
qed

lemma wf_queries:
  assumes w: "wf h"
  shows "isList h l \<Longrightarrow> Len h l \<noteq> None" "isList h l \<Longrightarrow> Front h l \<noteq> None"
    "isList h l \<Longrightarrow> Back h l \<noteq> None" "live h e \<Longrightarrow> Next h e \<noteq> None" "live h e \<Longrightarrow> Prev h e \<noteq> None"
proof -
  show "isList h l \<Longrightarrow> Len h l \<noteq> None" by (simp add: isList_def Len_def)
  show "isList h l \<Longrightarrow> Front h l \<noteq> None" by (auto simp: isList_def Front_def)
  show "isList h l \<Longrightarrow> Back h l \<noteq> None" by (auto simp: isList_def Back_def)
  show "live h e \<Longrightarrow> Next h e \<noteq> None" using live_owner[OF w, of e] by (auto simp: Next_def)
  show "live h e \<Longrightarrow> Prev h e \<noteq> None" using live_owner[OF w, of e] by (auto simp: Prev_def)
qed

lemma wf_insert_back:
  assumes w: "wf h" and r: "ring h l xs"
  shows "\<exists>h1. insertValueAfter h (Some l) v (Some (last (Root l # map Elem xs)))
        = Some (Some (Elem (nelems h)), h1)
     \<and> wf h1 \<and> ring h1 l (xs @ [nelems h]) \<and> confined h l h1
     \<and> nexts h1 = (nexts h)(Elem (nelems h) \<mapsto> Some (Root l),
           last (Root l # map Elem xs) \<mapsto> Some (Elem (nelems h)))
     \<and> prevs h1 = (prevs h)(Elem (nelems h) \<mapsto> Some (last (Root l # map Elem xs)),
           Root l \<mapsto> Some (Elem (nelems h)))
     \<and> owners h1 = (owners h)(Elem (nelems h) \<mapsto> Some l)
     \<and> vals h1 = (vals h)(Elem (nelems h) \<mapsto> v)
     \<and> nelems h1 = Suc (nelems h)"
proof -
  let ?m = "last (Root l # map Elem xs)"
  have r': "ring h l (xs @ [])" using r by simp
  from wf_insert[OF w r' refl refl, of v] obtain h1 where
    h1: "insertValueAfter h (Some l) v (Some ?m) = Some (Some (Elem (nelems h)), h1)"
      "wf h1" "ring h1 l (xs @ [nelems h])"
      "nexts h1 = (nexts h)(Elem (nelems h) \<mapsto> Some (Root l), ?m \<mapsto> Some (Elem (nelems h)))"
      "prevs h1 = (prevs h)(Elem (nelems h) \<mapsto> Some ?m, Root l \<mapsto> Some (Elem (nelems h)))"
      "owners h1 = (owners h)(Elem (nelems h) \<mapsto> Some l)"
      "sizes h1 = (sizes h)(l \<mapsto> int (length (xs @ [])) + 1)"
      "nelems h1 = Suc (nelems h)" "nlists h1 = nlists h"
      and V: "vals h1 = (vals h)(Elem (nelems h) \<mapsto> v)"
    by auto
  have "?m \<in> set (Root l # map Elem xs)" by (rule last_pre_in)
  moreover have "Root l \<in> set (Root l # map Elem xs)" by simp
  ultimately have "confined h l h1" by (rule confined_insert[OF r _ _ h1(4-9)])
  then show ?thesis using h1 V by blast
qed

lemma wf_insert_front:
  assumes w: "wf h" and r: "ring h l xs"
  shows "\<exists>h1. insertValueAfter h (Some l) v (Some (Root l)) = Some (Some (Elem (nelems h)), h1)
     \<and> wf h1 \<and> ring h1 l (nelems h # xs) \<and> confined h l h1
     \<and> nexts h1 = (nexts h)(Elem (nelems h) \<mapsto> Some (hd (map Elem xs @ [Root l])),
           Root l \<mapsto> Some (Elem (nelems h)))
     \<and> prevs h1 = (prevs h)(Elem (nelems h) \<mapsto> Some (Root l),
           hd (map Elem xs @ [Root l]) \<mapsto> Some (Elem (nelems h)))
     \<and> owners h1 = (owners h)(Elem (nelems h) \<mapsto> Some l)
     \<and> vals h1 = (vals h)(Elem (nelems h) \<mapsto> v)
     \<and> nelems h1 = Suc (nelems h)"
proof -
  let ?q = "hd (map Elem xs @ [Root l])"
  have r': "ring h l ([] @ xs)" using r by simp
  have m: "Root l = last (Root l # map Elem [])" by simp
  from wf_insert[OF w r' m refl, of v] obtain h1 where
    h1: "insertValueAfter h (Some l) v (Some (Root l)) = Some (Some (Elem (nelems h)), h1)"
      "wf h1" "ring h1 l (nelems h # xs)"
      "nexts h1 = (nexts h)(Elem (nelems h) \<mapsto> Some ?q, Root l \<mapsto> Some (Elem (nelems h)))"
      "prevs h1 = (prevs h)(Elem (nelems h) \<mapsto> Some (Root l), ?q \<mapsto> Some (Elem (nelems h)))"
      "owners h1 = (owners h)(Elem (nelems h) \<mapsto> Some l)"
      "sizes h1 = (sizes h)(l \<mapsto> int (length ([] @ xs)) + 1)"
      "nelems h1 = Suc (nelems h)" "nlists h1 = nlists h"
      and V: "vals h1 = (vals h)(Elem (nelems h) \<mapsto> v)"
    by auto
  have "?q \<in> set (Root l # map Elem xs)" using hd_post_in[of xs l] by auto
  moreover have "Root l \<in> set (Root l # map Elem xs)" by simp
  ultimately have "confined h l h1" using confined_insert[OF r _ _ h1(4-9)] by blast
  then show ?thesis using h1 V by blast
qed

lemma lnk_tl: "lnk N P (p # ps) \<Longrightarrow> lnk N P ps"
  by (cases ps) auto

lemma lnk_butlast: "lnk N P (ps @ [p]) \<Longrightarrow> lnk N P ps"
  by (simp add: lnk_append)

lemma pushBackLoop_zero: "pushBackLoop h l e 0 = Some h"
  by (simp add: pushBackLoop.simps)

lemma pushFrontLoop_zero: "pushFrontLoop h l e 0 = Some h"
  by (simp add: pushFrontLoop.simps)

lemma pushBackLoop_wf:
  assumes "wf h" "ring h l xs"
    and "\<forall>z\<in>set zs. owners h (Elem z) = Some (Some o')"
    and "lnk (nexts h) (prevs h) (map Elem zs)"
    and "last (Root l # map Elem xs) \<notin> set (butlast (map Elem zs))"
  shows "\<exists>h' ns. pushBackLoop h (Some l) (headPtr zs) (int (length zs)) = Some h' \<and> wf h'
     \<and> ring h' l (xs @ ns)
     \<and> map (vals h') (map Elem ns) = map (vals h) (map Elem zs)
     \<and> (\<forall>p. nexts h p \<noteq> None \<longrightarrow> vals h' p = vals h p)
     \<and> (\<forall>k ys. k \<noteq> l \<longrightarrow> lst h k ys \<longrightarrow> lst h' k ys)"
  using assms
proof (induction zs arbitrary: h xs)
  case Nil
  then show ?case by (simp add: pushBackLoop_zero)
next
  case (Cons z zs)
  let ?n = "nelems h"
  define m where "m = last (Root l # map Elem xs)"
  note w = Cons.prems(1) and r = Cons.prems(2)
  have al: "allocated h" using w by (simp add: wf_def)
  have oz: "owners h (Elem z) = Some (Some o')" using Cons.prems(3) by simp
  then obtain x where x: "getE h (Some (Elem z)) = Some x" by (auto simp: owners_def)
  have vx: "vals h (Elem z) = Some (Value x)" using x by (simp add: vals_def)
  have old: "\<And>y. y \<in> set (z # zs) \<Longrightarrow> y < ?n"
    using Cons.prems(3) allocated_elem[OF al] by blast
  have nz: "?n \<notin> set (z # zs)" using old[of ?n] by auto
  obtain L where L: "getL h (Some l) = Some L" "prev (root L) = Some m"
    using getL_root[OF ring_root(1,2)[OF r]] unfolding m_def by blast
  from wf_insert_back[OF w r, of "Value x", folded m_def] obtain h1 where
    ins: "insertValueAfter h (Some l) (Value x) (Some m) = Some (Some (Elem ?n), h1)"
    and w1: "wf h1" and r1: "ring h1 l (xs @ [?n])" and conf: "confined h l h1"
    and N: "nexts h1 = (nexts h)(Elem ?n \<mapsto> Some (Root l), m \<mapsto> Some (Elem ?n))"
    and P: "prevs h1 = (prevs h)(Elem ?n \<mapsto> Some m, Root l \<mapsto> Some (Elem ?n))"
    and O: "owners h1 = (owners h)(Elem ?n \<mapsto> Some l)"
    and V: "vals h1 = (vals h)(Elem ?n \<mapsto> Value x)"
    and C: "nelems h1 = Suc ?n"
    by blast
  have oz1: "owners h1 (Elem z) = Some (Some o')" using oz old[of z] by (simp add: O)
  have "nexts h1 (Elem z) \<noteq> None" using oz1 view_None(2)[of h1 "Elem z"] by auto
  then obtain nx1 where nx1: "nexts h1 (Elem z) = Some nx1" by auto
  define e1 where "e1 = (if nx1 = Some (Root o') then None else nx1)"
  have nxt: "Next h1 (Some (Elem z)) = Some e1"
    using Next_views[OF oz1 nx1] by (simp add: e1_def)
  have step: "pushBackLoop h (Some l) (headPtr (z # zs)) (int (length (z # zs)))
      = pushBackLoop h1 (Some l) e1 (int (length zs))"
    by (subst pushBackLoop.simps) (simp add: headPtr_def x L ins nxt)
  have "\<exists>h' ns. pushBackLoop h1 (Some l) e1 (int (length zs)) = Some h' \<and> wf h'
     \<and> ring h' l ((xs @ [?n]) @ ns)
     \<and> map (vals h') (map Elem ns) = map (vals h1) (map Elem zs)
     \<and> (\<forall>p. nexts h1 p \<noteq> None \<longrightarrow> vals h' p = vals h1 p)
     \<and> (\<forall>k ys. k \<noteq> l \<longrightarrow> lst h1 k ys \<longrightarrow> lst h' k ys)"
  proof (cases zs)
    case Nil
    then show ?thesis using w1 r1 by (simp add: pushBackLoop_zero)
  next
    case (Cons z' zs')
    have zin: "Elem z \<in> set (butlast (map Elem (z # zs)))" using Cons by simp
    then have zm: "Elem z \<noteq> m" using Cons.prems(5) unfolding m_def by metis
    have "nexts h (Elem z) = Some (Some (Elem z'))" using Cons.prems(4) Cons by simp
    then have "nx1 = Some (Elem z')" using nx1 zm old[of z] by (simp add: N)
    then have e1: "e1 = headPtr zs" by (simp add: e1_def headPtr_def Cons)
    have o1: "\<forall>y\<in>set zs. owners h1 (Elem y) = Some (Some o')"
      using Cons.prems(3) nz by (auto simp: O)
    have sub: "set (butlast (map Elem zs)) \<subseteq> set (butlast (map Elem (z # zs)))"
      using Cons by auto
    have "lnk (nexts h) (prevs h) (map Elem zs)" using lnk_tl[of _ _ "Elem z"] Cons.prems(4) by simp
    moreover have "lnk (nexts h1) (prevs h1) (map Elem zs) = lnk (nexts h) (prevs h) (map Elem zs)"
    proof (rule lnk_cong)
      fix p assume p: "p \<in> set (butlast (map Elem zs))"
      then have "p \<noteq> m" using sub Cons.prems(5) unfolding m_def by blast
      moreover have "p \<noteq> Elem ?n" using p nz by (auto dest!: in_set_butlastD)
      ultimately show "nexts h1 p = nexts h p" by (simp add: N)
    next
      fix p assume p: "p \<in> set (tl (map Elem zs))"
      then have "p \<in> set (map Elem zs)" by (metis list.sel(2) list.set_sel(2))
      then have "p \<noteq> Elem ?n" "p \<noteq> Root l" using nz by auto
      then show "prevs h1 p = prevs h p" by (simp add: P)
    qed
    ultimately have l1: "lnk (nexts h1) (prevs h1) (map Elem zs)" by simp
    have "last (Root l # map Elem (xs @ [?n])) = Elem ?n" by simp
    moreover have "Elem ?n \<notin> set (butlast (map Elem zs))" using nz by (auto dest!: in_set_butlastD)
    ultimately have m1: "last (Root l # map Elem (xs @ [?n])) \<notin> set (butlast (map Elem zs))" by simp
    from Cons.IH[OF w1 r1 o1 l1 m1] show ?thesis unfolding e1 .
  qed
  then obtain h' ns where
    run: "pushBackLoop h1 (Some l) e1 (int (length zs)) = Some h'" and w': "wf h'"
    and r': "ring h' l ((xs @ [?n]) @ ns)"
    and vs: "map (vals h') (map Elem ns) = map (vals h1) (map Elem zs)"
    and keep: "\<forall>p. nexts h1 p \<noteq> None \<longrightarrow> vals h' p = vals h1 p"
    and others: "\<forall>k ys. k \<noteq> l \<longrightarrow> lst h1 k ys \<longrightarrow> lst h' k ys"
    by blast
  have a1: "\<And>p. nexts h p \<noteq> None \<Longrightarrow> nexts h1 p \<noteq> None" by (simp add: N)
  have fresh: "nexts h (Elem ?n) = None" using al by (simp add: allocated_def)
  have "vals h' (Elem ?n) = vals h1 (Elem ?n)" using keep by (simp add: N)
  then have vn: "vals h' (Elem ?n) = vals h (Elem z)" by (simp add: V vx)
  have "map (vals h1) (map Elem zs) = map (vals h) (map Elem zs)"
    using nz by (auto simp: V)
  then have "map (vals h') (map Elem (?n # ns)) = map (vals h) (map Elem (z # zs))"
    using vs vn by simp
  moreover have "\<forall>p. nexts h p \<noteq> None \<longrightarrow> vals h' p = vals h p"
  proof (intro allI impI)
    fix p assume p: "nexts h p \<noteq> None"
    then have "p \<noteq> Elem ?n" using fresh by auto
    then show "vals h' p = vals h p" using keep a1[OF p] by (simp add: V)
  qed
  moreover have "\<forall>k ys. k \<noteq> l \<longrightarrow> lst h k ys \<longrightarrow> lst h' k ys"
    using others confined_lst[OF w conf] by blast
  moreover have "ring h' l (xs @ (?n # ns))" using r' by simp
  ultimately show ?case using step run w' by metis
qed

lemma pushFrontLoop_wf:
  assumes "wf h" "ring h l xs"
    and "\<forall>z\<in>set ws. owners h (Elem z) = Some (Some o')"
    and "lnk (nexts h) (prevs h) (map Elem (rev ws))"
    and "hd (map Elem xs @ [Root l]) \<notin> set (butlast (map Elem ws))"
  shows "\<exists>h' ns. pushFrontLoop h (Some l) (headPtr ws) (int (length ws)) = Some h' \<and> wf h'
     \<and> ring h' l (rev ns @ xs)
     \<and> map (vals h') (map Elem ns) = map (vals h) (map Elem ws)
     \<and> (\<forall>p. nexts h p \<noteq> None \<longrightarrow> vals h' p = vals h p)
     \<and> (\<forall>k ys. k \<noteq> l \<longrightarrow> lst h k ys \<longrightarrow> lst h' k ys)"
  using assms
proof (induction ws arbitrary: h xs)
  case Nil
  then show ?case by (simp add: pushFrontLoop_zero)
next
  case (Cons z zs)
  let ?n = "nelems h"
  define q where "q = hd (map Elem xs @ [Root l])"
  note w = Cons.prems(1) and r = Cons.prems(2)
  have al: "allocated h" using w by (simp add: wf_def)
  have oz: "owners h (Elem z) = Some (Some o')" using Cons.prems(3) by simp
  then obtain x where x: "getE h (Some (Elem z)) = Some x" by (auto simp: owners_def)
  have vx: "vals h (Elem z) = Some (Value x)" using x by (simp add: vals_def)
  have old: "\<And>y. y \<in> set (z # zs) \<Longrightarrow> y < ?n"
    using Cons.prems(3) allocated_elem[OF al] by blast
  have nz: "?n \<notin> set (z # zs)" using old[of ?n] by auto
  from wf_insert_front[OF w r, of "Value x", folded q_def] obtain h1 where
    ins: "insertValueAfter h (Some l) (Value x) (Some (Root l)) = Some (Some (Elem ?n), h1)"
    and w1: "wf h1" and r1: "ring h1 l (?n # xs)" and conf: "confined h l h1"
    and N: "nexts h1 = (nexts h)(Elem ?n \<mapsto> Some q, Root l \<mapsto> Some (Elem ?n))"
    and P: "prevs h1 = (prevs h)(Elem ?n \<mapsto> Some (Root l), q \<mapsto> Some (Elem ?n))"
    and O: "owners h1 = (owners h)(Elem ?n \<mapsto> Some l)"
    and V: "vals h1 = (vals h)(Elem ?n \<mapsto> Value x)"
    and C: "nelems h1 = Suc ?n"
    by blast
  have oz1: "owners h1 (Elem z) = Some (Some o')" using oz old[of z] by (simp add: O)
  have "prevs h1 (Elem z) \<noteq> None" using oz1 view_None(1,2)[of h1 "Elem z"] by auto
  then obtain pv1 where pv1: "prevs h1 (Elem z) = Some pv1" by auto
  define e1 where "e1 = (if pv1 = Some (Root o') then None else pv1)"
  have prv: "Prev h1 (Some (Elem z)) = Some e1"
    using Prev_views[OF oz1 pv1] by (simp add: e1_def)
  have step: "pushFrontLoop h (Some l) (headPtr (z # zs)) (int (length (z # zs)))
      = pushFrontLoop h1 (Some l) e1 (int (length zs))"
    by (subst pushFrontLoop.simps) (simp add: headPtr_def x ins prv)
  have lk0: "lnk (nexts h) (prevs h) (map Elem (rev zs) @ [Elem z])"
    using Cons.prems(4) by simp
  have "\<exists>h' ns. pushFrontLoop h1 (Some l) e1 (int (length zs)) = Some h' \<and> wf h'
     \<and> ring h' l (rev ns @ (?n # xs))
     \<and> map (vals h') (map Elem ns) = map (vals h1) (map Elem zs)
     \<and> (\<forall>p. nexts h1 p \<noteq> None \<longrightarrow> vals h' p = vals h1 p)
     \<and> (\<forall>k ys. k \<noteq> l \<longrightarrow> lst h1 k ys \<longrightarrow> lst h' k ys)"
  proof (cases zs)
    case Nil
    then show ?thesis using w1 r1 by (simp add: pushFrontLoop_zero)
  next
    case (Cons z' zs')
    have zin: "Elem z \<in> set (butlast (map Elem (z # zs)))" using Cons by simp
    then have zq: "Elem z \<noteq> q" using Cons.prems(5) unfolding q_def by metis
    have "map Elem (rev zs) \<noteq> []" using Cons by simp
    then have "prevs h (Elem z) = Some (Some (last (map Elem (rev zs))))"
      using lk0 unfolding lnk_append by simp
    moreover have "last (map Elem (rev zs)) = Elem z'" using Cons by simp
    ultimately have "pv1 = Some (Elem z')" using pv1 zq old[of z] by (simp add: P)
    then have e1: "e1 = headPtr zs" by (simp add: e1_def headPtr_def Cons)
    have o1: "\<forall>y\<in>set zs. owners h1 (Elem y) = Some (Some o')"
      using Cons.prems(3) nz by (auto simp: O)
    have sub: "set (butlast (map Elem zs)) \<subseteq> set (butlast (map Elem (z # zs)))"
      using Cons by auto
    have "lnk (nexts h) (prevs h) (map Elem (rev zs))" using lnk_butlast[OF lk0] .
    moreover have "lnk (nexts h1) (prevs h1) (map Elem (rev zs)) = lnk (nexts h) (prevs h) (map Elem (rev zs))"
    proof (rule lnk_cong)
      fix p assume p: "p \<in> set (butlast (map Elem (rev zs)))"
      then have "p \<in> set (map Elem zs)" by (auto dest!: in_set_butlastD)
      then have "p \<noteq> Elem ?n" "p \<noteq> Root l" using nz by auto
      then show "nexts h1 p = nexts h p" by (simp add: N)
    next
      fix p assume p: "p \<in> set (tl (map Elem (rev zs)))"
      have "tl (map Elem (rev zs)) = rev (butlast (map Elem zs))"
        by (cases zs rule: rev_cases) (simp_all add: butlast_append rev_map)
      then have pb: "p \<in> set (butlast (map Elem zs))" using p by simp
      then have "p \<noteq> q" using sub Cons.prems(5) unfolding q_def by blast
      moreover have "p \<noteq> Elem ?n" using pb nz by (auto dest!: in_set_butlastD)
      ultimately show "prevs h1 p = prevs h p" by (simp add: P)
    qed
    ultimately have l1: "lnk (nexts h1) (prevs h1) (map Elem (rev zs))" by simp
    have "hd (map Elem (?n # xs) @ [Root l]) = Elem ?n" by simp
    moreover have "Elem ?n \<notin> set (butlast (map Elem zs))" using nz by (auto dest!: in_set_butlastD)
    ultimately have m1: "hd (map Elem (?n # xs) @ [Root l]) \<notin> set (butlast (map Elem zs))" by simp
    from Cons.IH[OF w1 r1 o1 l1 m1] show ?thesis unfolding e1 .
  qed
  then obtain h' ns where
    run: "pushFrontLoop h1 (Some l) e1 (int (length zs)) = Some h'" and w': "wf h'"
    and r': "ring h' l (rev ns @ (?n # xs))"
    and vs: "map (vals h') (map Elem ns) = map (vals h1) (map Elem zs)"
    and keep: "\<forall>p. nexts h1 p \<noteq> None \<longrightarrow> vals h' p = vals h1 p"
    and others: "\<forall>k ys. k \<noteq> l \<longrightarrow> lst h1 k ys \<longrightarrow> lst h' k ys"
    by blast
  have a1: "\<And>p. nexts h p \<noteq> None \<Longrightarrow> nexts h1 p \<noteq> None" by (simp add: N)
  have fresh: "nexts h (Elem ?n) = None" using al by (simp add: allocated_def)
  have "vals h' (Elem ?n) = vals h1 (Elem ?n)" using keep by (simp add: N)
  then have vn: "vals h' (Elem ?n) = vals h (Elem z)" by (simp add: V vx)
  have "map (vals h1) (map Elem zs) = map (vals h) (map Elem zs)"
    using nz by (auto simp: V)
  then have "map (vals h') (map Elem (?n # ns)) = map (vals h) (map Elem (z # zs))"
    using vs vn by simp
  moreover have "\<forall>p. nexts h p \<noteq> None \<longrightarrow> vals h' p = vals h p"
  proof (intro allI impI)
    fix p assume p: "nexts h p \<noteq> None"
    then have "p \<noteq> Elem ?n" using fresh by auto
    then show "vals h' p = vals h p" using keep a1[OF p] by (simp add: V)
  qed
  moreover have "\<forall>k ys. k \<noteq> l \<longrightarrow> lst h k ys \<longrightarrow> lst h' k ys"
    using others confined_lst[OF w conf] by blast
  moreover have "ring h' l (rev (?n # ns) @ xs)" using r' by simp
  ultimately show ?case using step run w' by metis
qed

lemma allocated_same:
  assumes "allocated h" "allocated h'" "nelems h' = nelems h" "nlists h' = nlists h"
  shows "nexts h' p = None \<longleftrightarrow> nexts h p = None"
  using assms by (cases p) (simp_all add: allocated_def)

lemma lst_src:
  assumes "lst h k ys"
  shows "\<forall>z\<in>set ys. owners h (Elem z) = Some (Some k)"
    "lnk (nexts h) (prevs h) (map Elem ys)" "distinct ys"
proof -
  from assms have c: "ring h k ys \<or> ys = []" by (auto simp: lst_def)
  show "\<forall>z\<in>set ys. owners h (Elem z) = Some (Some k)" using c by (auto simp: ring_def)
  show "lnk (nexts h) (prevs h) (map Elem ys)" using c lnk_butlast[OF ring_root(3)] by auto
  show "distinct ys" using c by (auto simp: ring_def)
qed

lemma last_notin_butlast: "distinct ps \<Longrightarrow> ps \<noteq> [] \<Longrightarrow> last ps \<notin> set (butlast ps)"
  by (metis append_butlast_last_id distinct_butlast not_distinct_conv_prefix)

lemma hd_notin_butlast_rev: "distinct ps \<Longrightarrow> ps \<noteq> [] \<Longrightarrow> hd ps \<notin> set (butlast (rev ps))"
  by (cases ps) (auto simp: butlast_append)

lemma copy_prepare:
  assumes w: "wf h" and l: "l < nlists h" and o': "o' < nlists h"
    and lx: "lst h l xs" and ly: "lst h o' ys"
  shows "\<exists>h1. lazyInit h (Some l) = Some h1 \<and> wf h1 \<and> ring h1 l xs \<and> lst h1 o' ys
     \<and> vals h1 = vals h \<and> (\<forall>p. nexts h1 p = None \<longleftrightarrow> nexts h p = None)
     \<and> (\<forall>c. c \<in> set (Root l # map Elem xs) \<and> c \<in> set (map Elem ys) \<longrightarrow> o' = l)"
proof -
  from wf_lazyInit[OF w l] obtain h1 xs1 where
    li: "lazyInit h (Some l) = Some h1" and w1: "wf h1" and r1: "ring h1 l xs1"
    and lx1: "lst h l xs1" and V: "vals h1 = vals h"
    and C: "nelems h1 = nelems h" "nlists h1 = nlists h"
    and others: "\<forall>j ys. j \<noteq> l \<longrightarrow> lst h j ys \<longrightarrow> lst h1 j ys"
    by blast
  have xs1: "xs1 = xs" by (rule lst_unique[OF lx1 lx])
  have r: "ring h1 l xs" using r1 xs1 by simp
  have ly1: "lst h1 o' ys"
  proof (cases "o' = l")
    case True
    then have "ys = xs" using lst_unique[OF _ lx] ly by simp
    then show ?thesis using r True by (simp add: lst_def)
  next
    case False
    then show ?thesis using others ly by simp
  qed
  have al: "\<forall>p. nexts h1 p = None \<longleftrightarrow> nexts h p = None"
    using allocated_same[of h h1] w w1 C by (simp add: wf_def)
  have "\<forall>c. c \<in> set (Root l # map Elem xs) \<and> c \<in> set (map Elem ys) \<longrightarrow> o' = l"
  proof (intro allI impI)
    fix c assume c: "c \<in> set (Root l # map Elem xs) \<and> c \<in> set (map Elem ys)"
    then obtain y where y: "c = Elem y" "y \<in> set ys" by auto
    then have "owners h1 (Elem y) = Some (Some o')" using lst_src(1)[OF ly1] by simp
    moreover have "owners h1 (Elem y) = Some (Some l)" using c y r by (auto simp: ring_def)
    ultimately show "o' = l" by simp
  qed
  then show ?thesis using li w1 r ly1 V al by blast
qed

lemma PushBackList_lst:
  assumes w: "wf h" and l: "l < nlists h" and o': "o' < nlists h"
    and lx: "lst h l xs" and ly: "lst h o' ys"
  shows "\<exists>h' ns. PushBackList h (Some l) (Some o') = Some h' \<and> wf h'
     \<and> ring h' l (xs @ ns)
     \<and> map (vals h') (map Elem ns) = map (vals h) (map Elem ys)
     \<and> (\<forall>p. nexts h p \<noteq> None \<longrightarrow> vals h' p = vals h p)
     \<and> (o' \<noteq> l \<longrightarrow> lst h' o' ys)"
proof -
  from copy_prepare[OF assms] obtain h1 where
    li: "lazyInit h (Some l) = Some h1" and w1: "wf h1" and r: "ring h1 l xs"
    and ly1: "lst h1 o' ys" and V: "vals h1 = vals h"
    and al: "\<forall>p. nexts h1 p = None \<longleftrightarrow> nexts h p = None"
    and dj: "\<forall>c. c \<in> set (Root l # map Elem xs) \<and> c \<in> set (map Elem ys) \<longrightarrow> o' = l"
    by blast
  have eq: "PushBackList h (Some l) (Some o') = pushBackLoop h1 (Some l) (headPtr ys) (int (length ys))"
    by (simp add: PushBackList_def li lst_queries[OF ly1])
  have m: "last (Root l # map Elem xs) \<notin> set (butlast (map Elem ys))"
  proof (cases "o' = l")
    case True
    then have ys: "ys = xs" using lst_unique[OF _ lx] ly by simp
    show ?thesis
    proof (cases "xs = []")
      case True then show ?thesis using ys by simp
    next
      case False
      have "distinct (map Elem xs)" using r by (simp add: ring_def distinct_map inj_on_def)
      from last_notin_butlast[OF this] False show ?thesis using ys by simp
    qed
  next
    case False
    have "last (Root l # map Elem xs) \<in> set (Root l # map Elem xs)" by (rule last_pre_in)
    then have "last (Root l # map Elem xs) \<notin> set (map Elem ys)" using dj False by blast
    then show ?thesis by (metis in_set_butlastD)
  qed
  from pushBackLoop_wf[OF w1 r lst_src(1,2)[OF ly1] m] obtain h' ns where
    run: "pushBackLoop h1 (Some l) (headPtr ys) (int (length ys)) = Some h'" and w': "wf h'"
    and r': "ring h' l (xs @ ns)"
    and vs: "map (vals h') (map Elem ns) = map (vals h1) (map Elem ys)"
    and keep: "\<forall>p. nexts h1 p \<noteq> None \<longrightarrow> vals h' p = vals h1 p"
    and others: "\<forall>k ys. k \<noteq> l \<longrightarrow> lst h1 k ys \<longrightarrow> lst h' k ys"
    by blast
  have "o' \<noteq> l \<longrightarrow> lst h' o' ys" using others ly1 by simp
  then show ?thesis using eq run w' r' vs keep al V by auto
qed

lemma PushFrontList_lst:
  assumes w: "wf h" and l: "l < nlists h" and o': "o' < nlists h"
    and lx: "lst h l xs" and ly: "lst h o' ys"
  shows "\<exists>h' ns. PushFrontList h (Some l) (Some o') = Some h' \<and> wf h'
     \<and> ring h' l (ns @ xs)
     \<and> map (vals h') (map Elem ns) = map (vals h) (map Elem ys)
     \<and> (\<forall>p. nexts h p \<noteq> None \<longrightarrow> vals h' p = vals h p)
     \<and> (o' \<noteq> l \<longrightarrow> lst h' o' ys)"
proof -
  from copy_prepare[OF assms] obtain h1 where
    li: "lazyInit h (Some l) = Some h1" and w1: "wf h1" and r: "ring h1 l xs"
    and ly1: "lst h1 o' ys" and V: "vals h1 = vals h"
    and al: "\<forall>p. nexts h1 p = None \<longleftrightarrow> nexts h p = None"
    and dj: "\<forall>c. c \<in> set (Root l # map Elem xs) \<and> c \<in> set (map Elem ys) \<longrightarrow> o' = l"
    by blast
  have hl: "headPtr (rev ys) = lastPtr ys"
    by (cases ys rule: rev_cases) (simp_all add: headPtr_def lastPtr_def)
  have eq: "PushFrontList h (Some l) (Some o') =
      pushFrontLoop h1 (Some l) (headPtr (rev ys)) (int (length (rev ys)))"
    by (simp add: PushFrontList_def li lst_queries[OF ly1] hl)
  have q: "hd (map Elem xs @ [Root l]) \<notin> set (butlast (map Elem (rev ys)))"
  proof (cases "o' = l")
    case True
    then have ys: "ys = xs" using lst_unique[OF _ lx] ly by simp
    show ?thesis
    proof (cases "xs = []")
      case True then show ?thesis using ys by simp
    next
      case False
      have "distinct (map Elem xs)" using r by (simp add: ring_def distinct_map inj_on_def)
      from hd_notin_butlast_rev[OF this] False show ?thesis using ys by (simp add: rev_map)
    qed
  next
    case False
    have "hd (map Elem xs @ [Root l]) \<in> set (Root l # map Elem xs)" using hd_post_in[of xs l] by auto
    then have "hd (map Elem xs @ [Root l]) \<notin> set (map Elem ys)" using dj False by blast
    then have "hd (map Elem xs @ [Root l]) \<notin> set (map Elem (rev ys))" by simp
    then show ?thesis by (metis in_set_butlastD)
  qed
  have o1: "\<forall>z\<in>set (rev ys). owners h1 (Elem z) = Some (Some o')" using lst_src(1)[OF ly1] by simp
  have l1: "lnk (nexts h1) (prevs h1) (map Elem (rev (rev ys)))" using lst_src(2)[OF ly1] by simp
  from pushFrontLoop_wf[OF w1 r o1 l1 q] obtain h' ns where
    run: "pushFrontLoop h1 (Some l) (headPtr (rev ys)) (int (length (rev ys))) = Some h'"
    and w': "wf h'" and r': "ring h' l (rev ns @ xs)"
    and vs: "map (vals h') (map Elem ns) = map (vals h1) (map Elem (rev ys))"
    and keep: "\<forall>p. nexts h1 p \<noteq> None \<longrightarrow> vals h' p = vals h1 p"
    and others: "\<forall>k ys. k \<noteq> l \<longrightarrow> lst h1 k ys \<longrightarrow> lst h' k ys"
    by blast
  have vs': "map (vals h') (map Elem (rev ns)) = map (vals h) (map Elem ys)"
    using arg_cong[OF vs, of rev] by (simp add: rev_map V)
  have "o' \<noteq> l \<longrightarrow> lst h' o' ys" using others ly1 by simp
  then show ?thesis using eq run w' r' vs' keep al V by auto
qed

lemma exec_wf:
  assumes w: "wf h" and a: "admissible h c"
  shows "\<exists>h'. exec h c = Some h' \<and> wf h'"
proof (cases c)
  case CallNew
  then show ?thesis using wf_New[OF w] by auto
next
  case CallZero
  then show ?thesis using wf_newList(1)[OF w] by simp
next
  case (CallInit l)
  then obtain k where "l = Some k" "k < nlists h"
    using a isList_cases[of h l] w by (auto simp: wf_def)
  then show ?thesis using wf_Init[OF w, of k] CallInit by auto
next
  case (CallLen l)
  then show ?thesis using wf_queries(1)[OF w, of l] a w by auto
next
  case (CallFront l)
  then show ?thesis using wf_queries(2)[OF w, of l] a w by auto
next
  case (CallBack l)
  then show ?thesis using wf_queries(3)[OF w, of l] a w by auto
next
  case (CallNext e)
  then show ?thesis using wf_queries(4)[OF w, of e] a w by auto
next
  case (CallPrev e)
  then show ?thesis using wf_queries(5)[OF w, of e] a w by auto
next
  case (CallPushBack l v)
  then show ?thesis using wf_PushBack[OF w, of l v] a by auto
next
  case (CallPushFront l v)
  then show ?thesis using wf_PushFront[OF w, of l v] a by auto
next
  case (CallInsertAfter l v mark)
  then show ?thesis using wf_InsertAfter[OF w, of l mark v] a by auto
next
  case (CallInsertBefore l v mark)
  then show ?thesis using wf_InsertBefore[OF w, of l mark v] a by auto
next
  case (CallRemove l e)
  then show ?thesis using wf_Remove_op[OF w, of l e] a by auto
next
  case (CallMoveToFront l e)
  then show ?thesis using wf_MoveToFront[OF w, of l e] a by auto
next
  case (CallMoveToBack l e)
  then show ?thesis using wf_MoveToBack[OF w, of l e] a by auto
next
  case (CallMoveBefore l e mark)
  then show ?thesis using wf_MoveBefore[OF w, of l e mark] a by auto
next
  case (CallMoveAfter l e mark)
  then show ?thesis using wf_MoveAfter[OF w, of l e mark] a by auto
next
  case (CallPushBackList l other)
  have al: "allocated h" using w by (simp add: wf_def)
  from CallPushBackList a obtain k j where
    k: "l = Some k" "k < nlists h" and j: "other = Some j" "j < nlists h"
    using isList_cases[OF al, of l] isList_cases[OF al, of other] by auto
  from wf_lst[OF w k(2)] wf_lst[OF w j(2)] obtain xs ys where "lst h k xs" "lst h j ys" by blast
  from PushBackList_lst[OF w k(2) j(2) this] show ?thesis using CallPushBackList k j by auto
next
  case (CallPushFrontList l other)
  have al: "allocated h" using w by (simp add: wf_def)
  from CallPushFrontList a obtain k j where
    k: "l = Some k" "k < nlists h" and j: "other = Some j" "j < nlists h"
    using isList_cases[OF al, of l] isList_cases[OF al, of other] by auto
  from wf_lst[OF w k(2)] wf_lst[OF w j(2)] obtain xs ys where "lst h k xs" "lst h j ys" by blast
  from PushFrontList_lst[OF w k(2) j(2) this] show ?thesis using CallPushFrontList k j by auto
qed

lemma run_wf:
  assumes "wf h" "admissibleRun h cs"
  shows "\<exists>h'. run h cs = Some h' \<and> wf h'"
  using assms
proof (induction cs arbitrary: h)
  case Nil
  then show ?case by simp
next
  case (Cons c cs)
  from exec_wf[OF Cons.prems(1), of c] Cons.prems(2) obtain h1 where
    h1: "exec h c = Some h1" "wf h1" by auto
  then have "admissibleRun h1 cs" using Cons.prems(2) by simp
  from Cons.IH[OF h1(2) this] show ?case using h1(1) by simp
qed

section \<open>Evaluating concrete programs\<close>

lemmas eval_defs = empty_heap_def getL_def getE_def updL_def updE_def alloc_def zeroElement_def
  newList_def Next_def Prev_def Back_def Front_def Init_def New_def insertValueAfter_def
  InsertAfter_def InsertBefore_def Len_def moveAfter_def MoveAfter_def MoveBefore_def
  MoveToBack_def MoveToFront_def lazyInit_def PushBack_def PushFront_def PushBackList_def
  PushFrontList_def Remove_def pushBackLoop.simps pushFrontLoop.simps forward_def backward_def
  forwardValues_def backwardValues_def Let_def eval_nat_numeral

section \<open>The membership guard of the insert operations\<close>

text \<open>
  Claim C6. When the back-reference of \<open>mark\<close> is not the list \<open>l\<close> (it is another list or
  nil), \<^verbatim>\<open>l.InsertAfter(v, mark)\<close> and \<^verbatim>\<open>l.InsertBefore(v, mark)\<close> return nil and
  the heap after the call is the heap before it: no size, link or element has changed.
\<close>

theorem insert_guard:
  assumes "getE h mark = Some m" and "list m \<noteq> l"
  shows "InsertAfter h l v mark = Some (None, h) \<and> InsertBefore h l v mark = Some (None, h)"
  using assms by (simp add: InsertAfter_def InsertBefore_def)

text \<open>
  The guard at work: list 0 and list 1 come from \<^verbatim>\<open>New\<close>, the element at \<open>Elem 0\<close> was pushed
  on list 1 and is offered to list 0 as a mark.
\<close>

theorem insert_guard_witness:
  "\<exists>h m. run (empty_heap :: int heap) [CallNew, CallNew, CallPushBack (Some 1) 7] = Some h
     \<and> getE h (Some (Elem 0)) = Some m \<and> list m = Some 1
     \<and> InsertAfter h (Some 0) 9 (Some (Elem 0)) = Some (None, h)
     \<and> InsertBefore h (Some 0) 9 (Some (Elem 0)) = Some (None, h)"
proof -
  obtain h m where h: "run (empty_heap :: int heap) [CallNew, CallNew, CallPushBack (Some 1) 7] = Some h"
    and m: "getE h (Some (Elem 0)) = Some m" and l: "list m = Some 1"
    by (simp add: eval_defs)
  have "list m \<noteq> Some 0" using l by simp
  from insert_guard[OF m this, of 9] h m l show ?thesis by blast
qed

section \<open>Removing an element twice\<close>

text \<open>
  Claim C10. Let \<open>e\<close> be an element whose back-reference is the list \<open>l\<close>, as it is for an
  element obtained from a push or an insert on \<open>l\<close>, and let \<^verbatim>\<open>l.Remove(e)\<close> have returned
  the value \<open>v\<close> in the heap \<open>h1\<close>. Then \<open>v\<close> is the value stored in \<open>e\<close>, and every later
  \<^verbatim>\<open>k.Remove(e)\<close>, for \<open>l\<close> or any other list \<open>k\<close>, returns \<open>v\<close> again and leaves the heap
  \<open>h1\<close> as it is; in particular no size is decremented a second time.
\<close>

theorem Remove_twice:
  assumes x: "getE h e = Some x" and xl: "list x = Some l"
    and rm: "Remove h (Some l) e = Some (v, h1)"
  shows "v = Value x \<and> (\<forall>k. Remove h1 (Some k) e = Some (v, h1))"
proof -
  from rm x xl have "\<exists>ha. updE h (prev x) (\<lambda>y. y\<lparr>next := next x\<rparr>) = Some ha
    \<and> (\<exists>xa. getE ha e = Some xa
    \<and> (\<exists>hb. updE ha (next xa) (\<lambda>y. y\<lparr>prev := prev xa\<rparr>) = Some hb
    \<and> (\<exists>hc. updE hb e (\<lambda>y. y\<lparr>prev := None\<rparr>) = Some hc
    \<and> (\<exists>hd. updE hc e (\<lambda>y. y\<lparr>next := None\<rparr>) = Some hd
    \<and> (\<exists>he. updE hd e (\<lambda>y. y\<lparr>list := None\<rparr>) = Some he
    \<and> (\<exists>h6. updL he (Some l) (\<lambda>L. L\<lparr>size' := size' L - 1\<rparr>) = Some h6
    \<and> (\<exists>x6. getE h6 e = Some x6 \<and> Value x6 = v \<and> h6 = h1)))))))"
    by (simp add: Remove_def bind_eq_Some_conv)
  then show ?thesis
  proof (elim exE conjE)
    fix ha xa hb hc hd he h6 x6
    assume a: "updE h (prev x) (\<lambda>y. y\<lparr>next := next x\<rparr>) = Some ha"
      and b: "updE ha (next xa) (\<lambda>y. y\<lparr>prev := prev xa\<rparr>) = Some hb"
      and c: "updE hb e (\<lambda>y. y\<lparr>prev := None\<rparr>) = Some hc"
      and d: "updE hc e (\<lambda>y. y\<lparr>next := None\<rparr>) = Some hd"
      and e: "updE hd e (\<lambda>y. y\<lparr>list := None\<rparr>) = Some he"
      and f: "updL he (Some l) (\<lambda>L. L\<lparr>size' := size' L - 1\<rparr>) = Some h6"
      and g: "getE h6 e = Some x6" "Value x6 = v" "h6 = h1"
    have "vals h6 = vals h"
      using updE_vals[OF a] updE_vals[OF b] updE_vals[OF c] updE_vals[OF d] updE_vals[OF e]
        updL_size_views(2)[OF f] by simp
    moreover obtain q where q: "e = Some q" "owners he q = Some None"
      using updE_owner_self[OF e] by blast
    ultimately have "Value x6 = Value x" "list x6 = None"
      using g(1) x updL_size_views(1)[OF f]
      by (auto simp: vals_def owners_def dest: fun_cong[where x = q])
    then show ?thesis using g by (auto simp: Remove_def)
  qed
qed

theorem Remove_twice_witness:
  "\<exists>h x h1. run (empty_heap :: int heap) [CallNew, CallNew, CallPushBack (Some 0) 7] = Some h
     \<and> getE h (Some (Elem 0)) = Some x \<and> list x = Some 0
     \<and> Remove h (Some 0) (Some (Elem 0)) = Some (7, h1)
     \<and> Value x = 7 \<and> Len h1 (Some 0) = Some 0
     \<and> Remove h1 (Some 0) (Some (Elem 0)) = Some (7, h1)
     \<and> Remove h1 (Some 1) (Some (Elem 0)) = Some (7, h1)"
proof -
  obtain h x h1 where h: "run (empty_heap :: int heap) [CallNew, CallNew, CallPushBack (Some 0) 7] = Some h"
    and x: "getE h (Some (Elem 0)) = Some x" and l: "list x = Some 0"
    and r: "Remove h (Some 0) (Some (Elem 0)) = Some (7, h1)"
    and n: "Len h1 (Some 0) = Some 0"
    by (simp add: eval_defs)
  from Remove_twice[OF x l r]
  have a: "Value x = 7" and b: "\<And>k. Remove h1 (Some k) (Some (Elem 0)) = Some (7, h1)"
    by simp_all
  show ?thesis
    by (rule exI[of _ h], rule exI[of _ x], rule exI[of _ h1]) (intro conjI h x l r n a b)
qed

end
